theory Spec2Isabelle
  imports Main "HOL-Library.Word" "HOL-Library.Monad_Syntax"
begin

section \<open>Data model (json.h)\<close>

text \<open>
  The scalar kinds of a variable (enum \<^verbatim>\<open>JVarType\<close>; json.c writes the enumerators with the
  prefix \<^verbatim>\<open>JVARTYPE_\<close>).
\<close>

datatype JVarType =
    JVARTYPE_INVALID
  | JVARTYPE_UINT16
  | JVARTYPE_INT16
  | JVARTYPE_UINT32
  | JVARTYPE_INT32
  | JVARTYPE_UINT64
  | JVARTYPE_INT64
  | JVARTYPE_FLOAT
  | JVARTYPE_STR
  | JVARTYPE_BLOB

text \<open>
  The union \<^verbatim>\<open>JVarData\<close>: one constructor per member that json.c writes, and \<open>Val_zero\<close>
  for the all-zero bytes that \<^verbatim>\<open>calloc\<close> leaves. The type \<open>'f\<close> stands for C's \<^verbatim>\<open>float\<close>,
  whose arithmetic is not modelled. A string payload is the content of the character buffer
  up to (not including) its terminator; it may hold the NUL that the escape \<^verbatim>\<open>\0\<close> writes.
\<close>

datatype 'f JVarData =
    Val_zero
  | Val_ui "16 word"
  | Val_i "16 word"
  | Val_ul "32 word"
  | Val_l "32 word"
  | Val_ull "64 word"
  | Val_ll "64 word"
  | Val_f 'f
  | Val_str string

datatype JType = JSON_INVALID | JSON_ARRAY | JSON_OBJECT | JSON_VAR | JSON_BOOL

text \<open>
  Pointers are addresses, \<open>NULL\<close> is 0. The structs \<^verbatim>\<open>JArray\<close>, \<^verbatim>\<open>JObject\<close> and \<^verbatim>\<open>JVar\<close> all
  begin with the \<^verbatim>\<open>JNode\<close> header and are reached through casts of one pointer; a heap cell
  carries the header and the members of all three (\<open>arr_n\<close> is the member \<^verbatim>\<open>n\<close>). The code
  reads the container members only under the tags \<open>JSON_ARRAY\<close> and \<open>JSON_OBJECT\<close> and the variable
  members only under \<open>JSON_VAR\<close> and \<open>JSON_BOOL\<close>. A name is \<open>None\<close> for a null \<^verbatim>\<open>char *\<close>.
  \<^verbatim>\<open>size_t\<close> is \<open>nat\<close>: no count in this development reaches its bound.
\<close>

type_synonym ptr = nat

abbreviation NULL :: ptr where
  "NULL \<equiv> 0"

record 'f jnode =
  node_type :: JType
  node_name :: "string option"
  pNext :: ptr
  arr_n :: nat
  pFirst :: ptr
  pLast :: ptr
  var_type :: JVarType
  var_len :: nat
  var_val :: "'f JVarData"

text \<open>
  The program state: the heap cells handed out by \<^verbatim>\<open>calloc\<close> (the cell at address \<open>p\<close> is
  \<open>heap w ! (p - 1)\<close>), the number of allocations that can still succeed, and the parser's
  global variable \<^verbatim>\<open>root\<close>.
\<close>

record 'f world =
  heap :: "'f jnode list"
  avail :: nat
  root :: ptr

definition zero_node :: "'f jnode" where
  "zero_node = \<lparr> node_type = JSON_INVALID, node_name = None, pNext = NULL, arr_n = 0,
     pFirst = NULL, pLast = NULL, var_type = JVARTYPE_INVALID, var_len = 0,
     var_val = Val_zero \<rparr>"

definition valid_ptr :: "'f world \<Rightarrow> ptr \<Rightarrow> bool" where
  "valid_ptr w p = (p \<noteq> NULL \<and> p \<le> length (heap w))"

text \<open>
  Reading through a pointer; \<open>None\<close> is an access outside the allocated cells. Writing
  is used only where the pointer has been read through or has just been allocated.
\<close>

definition load :: "'f world \<Rightarrow> ptr \<Rightarrow> 'f jnode option" where
  "load w p = (if valid_ptr w p then Some (heap w ! (p - 1)) else None)"

definition store :: "'f world \<Rightarrow> ptr \<Rightarrow> 'f jnode \<Rightarrow> 'f world" where
  "store w p nd = (if valid_ptr w p then w\<lparr>heap := (heap w)[p - 1 := nd]\<rparr> else w)"

text \<open>\<^verbatim>\<open>calloc( 1, sizeof(...) )\<close>: a zeroed fresh cell, or \<open>NULL\<close> when memory is exhausted.\<close>

definition calloc :: "'f world \<Rightarrow> ptr \<times> 'f world" where
  "calloc w =
     (if avail w = 0 then (NULL, w)
      else (Suc (length (heap w)),
            w\<lparr>heap := heap w @ [zero_node], avail := avail w - 1\<rparr>))"

text \<open>The values of \<^verbatim>\<open>errno.h\<close> on Linux, and \<^verbatim>\<open>EOK\<close> of json.h.\<close>

definition EOK :: int where "EOK = 0"
definition EINVAL :: int where "EINVAL = 22"
definition ENOTSUP :: int where "ENOTSUP = 95"

section \<open>C strings and the C library\<close>

definition NUL :: char where
  "NUL = CHR 0x00"

text \<open>What \<^verbatim>\<open>%s\<close>, \<^verbatim>\<open>strlen\<close>, \<^verbatim>\<open>strdup\<close> see of a buffer: the characters before the first NUL.\<close>

text \<open>The double quote character.\<close>

definition dquote :: char where
  "dquote = CHR 0x22"

definition c_str :: "string \<Rightarrow> string" where
  "c_str s = takeWhile (\<lambda>c. c \<noteq> NUL) s"

definition strlen :: "string \<Rightarrow> nat" where
  "strlen s = length (c_str s)"

definition is_digit :: "char \<Rightarrow> bool" where
  "is_digit c = (48 \<le> (of_char c :: nat) \<and> (of_char c :: nat) \<le> 57)"

definition digit_val :: "char \<Rightarrow> nat" where
  "digit_val c = (of_char c :: nat) - 48"

definition isspace :: "char \<Rightarrow> bool" where
  "isspace c = ((of_char c :: nat) = 32 \<or> (9 \<le> (of_char c :: nat) \<and> (of_char c :: nat) \<le> 13))"

text \<open>The value of a run of decimal digits, most significant first.\<close>

definition digits_value :: "string \<Rightarrow> nat" where
  "digits_value ds = foldl (\<lambda>a c. 10 * a + digit_val c) 0 ds"

text \<open>
  The subject sequence of the \<^verbatim>\<open>strtol\<close> family in base 10: white space is skipped, an
  optional sign is read, then the longest run of digits (none gives the value 0).
\<close>

definition strto_subject :: "string \<Rightarrow> int" where
  "strto_subject s =
     (let s1 = dropWhile isspace s;
          neg = (case s1 of [] \<Rightarrow> False | c # _ \<Rightarrow> c = CHR ''-'');
          s2 = (case s1 of [] \<Rightarrow> [] | c # r \<Rightarrow> if c = CHR ''-'' \<or> c = CHR ''+'' then r else s1);
          m = int (digits_value (takeWhile is_digit s2))
      in if neg then - m else m)"

definition LLONG_MAX :: int where "LLONG_MAX = 9223372036854775807"
definition LLONG_MIN :: int where "LLONG_MIN = - 9223372036854775808"
definition ULLONG_MAX :: int where "ULLONG_MAX = 18446744073709551615"

text \<open>
  \<^verbatim>\<open>strtoll( s, NULL, 10 )\<close> of the C library: the value, or \<^verbatim>\<open>LLONG_MAX\<close>/\<^verbatim>\<open>LLONG_MIN\<close>
  when it is out of range.
\<close>

definition strtoll :: "string \<Rightarrow> 64 word" where
  "strtoll s =
     (let v = strto_subject (c_str s)
      in if v > LLONG_MAX then word_of_int LLONG_MAX
         else if v < LLONG_MIN then word_of_int LLONG_MIN
         else word_of_int v)"

text \<open>
  \<^verbatim>\<open>strtoull( s, NULL, 10 )\<close> of the C library: \<^verbatim>\<open>ULLONG_MAX\<close> when the magnitude is out of
  range, and the negation in the unsigned type when the subject has a minus sign.
\<close>

definition strtoull :: "string \<Rightarrow> 64 word" where
  "strtoull s =
     (let v = strto_subject (c_str s)
      in if \<bar>v\<bar> > ULLONG_MAX then word_of_int ULLONG_MAX
         else word_of_int v)"

section \<open>Constructors (json.c)\<close>

definition JSON_Array :: "'f world \<Rightarrow> string option \<Rightarrow> ptr \<times> 'f world" where
  "JSON_Array w name =
     (let (pArray, w1) = calloc w
      in if pArray \<noteq> NULL
         then (pArray, store w1 pArray (zero_node\<lparr>node_name := name, node_type := JSON_ARRAY\<rparr>))
         else (pArray, w1))"

definition JSON_Object :: "'f world \<Rightarrow> string option \<Rightarrow> ptr \<times> 'f world" where
  "JSON_Object w name =
     (let (pObject, w1) = calloc w
      in if pObject \<noteq> NULL
         then (pObject, store w1 pObject (zero_node\<lparr>node_name := name, node_type := JSON_OBJECT\<rparr>))
         else (pObject, w1))"

definition JSON_Var :: "'f world \<Rightarrow> string option \<Rightarrow> ptr \<times> 'f world" where
  "JSON_Var w name =
     (let (pVar, w1) = calloc w
      in if pVar \<noteq> NULL
         then (pVar, store w1 pVar (zero_node\<lparr>node_name := name, node_type := JSON_VAR\<rparr>))
         else (pVar, w1))"

text \<open>
  Updating the cell a constructor has just obtained from \<open>JSON_Var\<close>; the pointer is valid
  there, so the access cannot fail.
\<close>

definition modify :: "'f world \<Rightarrow> ptr \<Rightarrow> ('f jnode \<Rightarrow> 'f jnode) \<Rightarrow> 'f world" where
  "modify w p f = store w p (f (heap w ! (p - 1)))"

text \<open>\<^verbatim>\<open>JSON_Num( name, num )\<close>; the \<^verbatim>\<open>int\<close> argument is a 32-bit word, stored in \<^verbatim>\<open>val.ul\<close>.\<close>

definition JSON_Num :: "'f world \<Rightarrow> string option \<Rightarrow> 32 word \<Rightarrow> ptr \<times> 'f world" where
  "JSON_Num w name num =
     (let (pVar, w1) = JSON_Var w name
      in if pVar \<noteq> NULL
         then (pVar, modify w1 pVar
                 (\<lambda>nd. nd\<lparr>var_type := JVARTYPE_UINT32, var_len := 4, var_val := Val_ul num\<rparr>))
         else (pVar, w1))"

definition JSON_ParseNumber :: "'f world \<Rightarrow> string option \<Rightarrow> string option \<Rightarrow> ptr \<times> 'f world" where
  "JSON_ParseNumber w name numstr =
     (let (pVar, w1) = JSON_Var w name
      in case numstr of
           None \<Rightarrow> (pVar, w1)
         | Some s \<Rightarrow>
             if pVar \<noteq> NULL then
               (if (case s of [] \<Rightarrow> False | c # _ \<Rightarrow> c = CHR ''-'') then
                  (let lli = strtoll s
                   in if sint lli > - 32768 \<and> sint lli < 32767 then
                        (pVar, modify w1 pVar (\<lambda>nd. nd\<lparr>var_type := JVARTYPE_INT16,
                           var_len := 2, var_val := Val_i (ucast lli)\<rparr>))
                      else if sint lli > - 2147483648 \<and> sint lli < 2147483647 then
                        (pVar, modify w1 pVar (\<lambda>nd. nd\<lparr>var_type := JVARTYPE_INT32,
                           var_len := 4, var_val := Val_l (ucast lli)\<rparr>))
                      else
                        (pVar, modify w1 pVar (\<lambda>nd. nd\<lparr>var_type := JVARTYPE_INT64,
                           var_len := 8, var_val := Val_ll lli\<rparr>)))
                else
                  (let llu = strtoull s
                   in if uint llu < 65535 then
                        (pVar, modify w1 pVar (\<lambda>nd. nd\<lparr>var_type := JVARTYPE_UINT16,
                           var_len := 2, var_val := Val_ui (ucast llu)\<rparr>))
                      else if uint llu < 4294967295 then
                        (pVar, modify w1 pVar (\<lambda>nd. nd\<lparr>var_type := JVARTYPE_UINT32,
                           var_len := 4, var_val := Val_ul (ucast llu)\<rparr>))
                      else
                        (pVar, modify w1 pVar (\<lambda>nd. nd\<lparr>var_type := JVARTYPE_UINT64,
                           var_len := 8, var_val := Val_ull llu\<rparr>))))
             else (pVar, w1))"

definition JSON_Float :: "'f world \<Rightarrow> string option \<Rightarrow> 'f \<Rightarrow> ptr \<times> 'f world" where
  "JSON_Float w name num =
     (let (pVar, w1) = JSON_Var w name
      in if pVar \<noteq> NULL
         then (pVar, modify w1 pVar
                 (\<lambda>nd. nd\<lparr>var_type := JVARTYPE_FLOAT, var_val := Val_f num, var_len := 4\<rparr>))
         else (pVar, w1))"

definition JSON_Bool :: "'f world \<Rightarrow> string option \<Rightarrow> 32 word \<Rightarrow> ptr \<times> 'f world" where
  "JSON_Bool w name num =
     (let (pVar, w1) = JSON_Var w name
      in if pVar \<noteq> NULL
         then (pVar, modify w1 pVar
                 (\<lambda>nd. nd\<lparr>node_type := JSON_BOOL, var_type := JVARTYPE_UINT16, var_len := 2,
                    var_val := Val_ui (if sint num > 0 then 1 else 0)\<rparr>))
         else (pVar, w1))"

definition JSON_Str :: "'f world \<Rightarrow> string option \<Rightarrow> string option \<Rightarrow> ptr \<times> 'f world" where
  "JSON_Str w name str =
     (let (pVar, w1) = JSON_Var w name
      in case str of
           None \<Rightarrow> (pVar, w1)
         | Some s \<Rightarrow>
             if pVar \<noteq> NULL
             then (pVar, modify w1 pVar
                     (\<lambda>nd. nd\<lparr>var_type := JVARTYPE_STR, var_val := Val_str s, var_len := strlen s\<rparr>))
             else (pVar, w1))"

section \<open>Array and object operations (json.c)\<close>

text \<open>
  Functions that follow pointers return an \<open>option\<close>: \<open>None\<close> means that the call has no
  defined result (it reads or writes outside the allocated cells, reads a union member other
  than the one written, or never returns).
\<close>

definition JSON_ArrayAdd :: "'f world \<Rightarrow> ptr \<Rightarrow> ptr \<Rightarrow> (int \<times> 'f world) option" where
  "JSON_ArrayAdd w pArray pObject =
     (if pArray \<noteq> NULL \<and> pObject \<noteq> NULL then
        (case load w pArray of
           None \<Rightarrow> None
         | Some a \<Rightarrow>
             if node_type a = JSON_ARRAY then
               (if pFirst a = NULL then
                  Some (EOK, store w pArray (a\<lparr>pFirst := pObject, pLast := pObject\<rparr>))
                else if pLast a \<noteq> NULL then
                  (case load w (pLast a) of
                     None \<Rightarrow> None
                   | Some l \<Rightarrow>
                       (let w1 = store w (pLast a) (l\<lparr>pNext := pObject\<rparr>)
                        in case load w1 pArray of
                             None \<Rightarrow> None
                           | Some a1 \<Rightarrow> Some (EOK, store w1 pArray (a1\<lparr>pLast := pObject\<rparr>))))
                else Some (EINVAL, w))
             else Some (ENOTSUP, w))
      else Some (EINVAL, w))"

definition JSON_ObjectAdd :: "'f world \<Rightarrow> ptr \<Rightarrow> ptr \<Rightarrow> (int \<times> 'f world) option" where
  "JSON_ObjectAdd w pObject pNode =
     (if pObject \<noteq> NULL \<and> pNode \<noteq> NULL then
        (case load w pObject of
           None \<Rightarrow> None
         | Some a \<Rightarrow>
             if node_type a = JSON_OBJECT then
               (if pFirst a = NULL then
                  Some (EOK, store w pObject (a\<lparr>pFirst := pNode, pLast := pNode\<rparr>))
                else if pLast a \<noteq> NULL then
                  (case load w (pLast a) of
                     None \<Rightarrow> None
                   | Some l \<Rightarrow>
                       (let w1 = store w (pLast a) (l\<lparr>pNext := pNode\<rparr>)
                        in case load w1 pObject of
                             None \<Rightarrow> None
                           | Some a1 \<Rightarrow> Some (EOK, store w1 pObject (a1\<lparr>pLast := pNode\<rparr>))))
                else Some (EINVAL, w))
             else Some (ENOTSUP, w))
      else Some (EINVAL, w))"

text \<open>The loop of \<open>JSON_Index\<close>, from the node \<open>pNode\<close> with the counter at \<open>n\<close>.\<close>

partial_function (option) index_loop :: "'f world \<Rightarrow> nat \<Rightarrow> ptr \<Rightarrow> nat \<Rightarrow> ptr option" where
  "index_loop w idx pNode n =
     (if pNode = NULL then Some NULL
      else if idx = n then Some pNode
      else (case load w pNode of
              None \<Rightarrow> None
            | Some nd \<Rightarrow> index_loop w idx (pNext nd) (n + 1)))"

definition JSON_Index :: "'f world \<Rightarrow> ptr \<Rightarrow> nat \<Rightarrow> ptr option" where
  "JSON_Index w pArray idx =
     (if pArray \<noteq> NULL then
        (case load w pArray of
           None \<Rightarrow> None
         | Some a \<Rightarrow>
             if node_type a = JSON_ARRAY then index_loop w idx (pFirst a) 0
             else Some NULL)
      else Some NULL)"

text \<open>
  The callback of \<open>JSON_Iterate\<close> receives the node pointer and \<open>arg\<close>; what it does beyond
  returning a code is a change of its own state \<open>'s\<close> (it does not change the nodes).
  The loop, from \<open>pNode\<close> with the current \<open>result\<close>:
\<close>

partial_function (option) iterate_loop ::
  "'f world \<Rightarrow> (ptr \<Rightarrow> 'a \<Rightarrow> 's \<Rightarrow> int \<times> 's) \<Rightarrow> 'a \<Rightarrow> ptr \<Rightarrow> int \<Rightarrow> 's \<Rightarrow> (int \<times> 's) option" where
  "iterate_loop w fn arg pNode result s =
     (if pNode = NULL then Some (result, s)
      else (case fn pNode arg s of
              (rc, s1) \<Rightarrow>
                (case load w pNode of
                   None \<Rightarrow> None
                 | Some nd \<Rightarrow>
                     iterate_loop w fn arg (pNext nd) (if rc \<noteq> EOK then rc else result) s1)))"

definition JSON_Iterate ::
  "'f world \<Rightarrow> ptr \<Rightarrow> (ptr \<Rightarrow> 'a \<Rightarrow> 's \<Rightarrow> int \<times> 's) option \<Rightarrow> 'a \<Rightarrow> 's \<Rightarrow> (int \<times> 's) option" where
  "JSON_Iterate w pArray fn arg s =
     (if pArray \<noteq> NULL \<and> fn \<noteq> None then
        (case load w pArray of
           None \<Rightarrow> None
         | Some a \<Rightarrow>
             if node_type a = JSON_ARRAY then iterate_loop w (the fn) arg (pFirst a) EOK s
             else Some (ENOTSUP, s))
      else Some (EINVAL, s))"

section \<open>Serialisation (json.c)\<close>

definition digit_char :: "nat \<Rightarrow> char" where
  "digit_char d = char_of (48 + d)"

text \<open>The conversion \<^verbatim>\<open>%d\<close> of \<^verbatim>\<open>fprintf\<close>.\<close>

fun show_nat :: "nat \<Rightarrow> string" where
  "show_nat n = (if n < 10 then [digit_char n] else show_nat (n div 10) @ [digit_char (n mod 10)])"

declare show_nat.simps [simp del]

definition show_int :: "int \<Rightarrow> string" where
  "show_int i = (if i < 0 then CHR ''-'' # show_nat (nat (- i)) else show_nat (nat i))"

text \<open>Reading the member \<^verbatim>\<open>val.ui\<close>, \<^verbatim>\<open>val.ul\<close>, \<^verbatim>\<open>val.f\<close>, \<^verbatim>\<open>val.str\<close> of the union.\<close>

definition get_ui :: "'f JVarData \<Rightarrow> 16 word option" where
  "get_ui v = (case v of Val_ui x \<Rightarrow> Some x | Val_zero \<Rightarrow> Some 0 | _ \<Rightarrow> None)"

definition get_ul :: "'f JVarData \<Rightarrow> 32 word option" where
  "get_ul v = (case v of Val_ul x \<Rightarrow> Some x | Val_zero \<Rightarrow> Some 0 | _ \<Rightarrow> None)"

definition get_f :: "'f JVarData \<Rightarrow> 'f option" where
  "get_f v = (case v of Val_f x \<Rightarrow> Some x | _ \<Rightarrow> None)"

definition get_str :: "'f JVarData \<Rightarrow> string option" where
  "get_str v = (case v of Val_str x \<Rightarrow> Some x | _ \<Rightarrow> None)"

text \<open>
  \<open>json_PrintValue\<close>; the result is the text written to \<^verbatim>\<open>fp\<close>. \<open>fmt_f\<close> is the conversion
  \<^verbatim>\<open>%f\<close>. \<^verbatim>\<open>%d\<close> reads its argument as an \<^verbatim>\<open>int\<close>: a \<^verbatim>\<open>uint16_t\<close> is promoted with its value,
  a \<^verbatim>\<open>uint32_t\<close> is read as the signed value of its 32 bits.
\<close>

definition json_PrintValue :: "('f \<Rightarrow> string) \<Rightarrow> 'f jnode \<Rightarrow> string option" where
  "json_PrintValue fmt_f pVar =
     (if node_type pVar = JSON_BOOL then
        (case get_ui (var_val pVar) of
           None \<Rightarrow> None
         | Some ui \<Rightarrow> Some (if unat ui > 0 then ''true'' else ''false ''))
      else
        (case var_type pVar of
           JVARTYPE_UINT16 \<Rightarrow>
             (case get_ui (var_val pVar) of None \<Rightarrow> None | Some ui \<Rightarrow> Some (show_int (uint ui)))
         | JVARTYPE_UINT32 \<Rightarrow>
             (case get_ul (var_val pVar) of None \<Rightarrow> None | Some ul \<Rightarrow> Some (show_int (sint ul)))
         | JVARTYPE_FLOAT \<Rightarrow>
             (case get_f (var_val pVar) of None \<Rightarrow> None | Some f \<Rightarrow> Some (fmt_f f))
         | JVARTYPE_STR \<Rightarrow>
             (case get_str (var_val pVar) of
                None \<Rightarrow> None
              | Some str \<Rightarrow> Some ([dquote] @ c_str str @ [dquote]))
         | _ \<Rightarrow> Some []))"

text \<open>
  \<open>JSON_Print\<close> and the loop over the children in it. With \<open>in_loop\<close> the function is the
  \<^verbatim>\<open>while\<close> loop from the child \<open>json\<close> on (print the child, set \<open>comma\<close>, go to \<open>pNext\<close>);
  without it, it is the body of \<open>JSON_Print\<close> for a non-null stream.
\<close>

partial_function (option) print_rec ::
  "('f \<Rightarrow> string) \<Rightarrow> 'f world \<Rightarrow> bool \<Rightarrow> ptr \<Rightarrow> bool \<Rightarrow> string option" where
  "print_rec fmt_f w in_loop json comma =
     (if json = NULL then Some []
      else
        (case load w json of
           None \<Rightarrow> None
         | Some nd \<Rightarrow>
             if in_loop then
               do {
                 out1 \<leftarrow> print_rec fmt_f w False json comma;
                 out2 \<leftarrow> print_rec fmt_f w True (pNext nd) True;
                 Some (out1 @ out2)
               }
             else
               (let pre = (if comma then '','' else []) @
                          (case node_name nd of
                             None \<Rightarrow> []
                           | Some name \<Rightarrow> [dquote] @ c_str name @ [dquote] @ '' : '')
                in case node_type nd of
                     JSON_ARRAY \<Rightarrow>
                       do {
                         body \<leftarrow> print_rec fmt_f w True (pFirst nd) False;
                         Some (pre @ ''['' @ body @ '']'')
                       }
                   | JSON_OBJECT \<Rightarrow>
                       do {
                         body \<leftarrow> print_rec fmt_f w True (pFirst nd) False;
                         Some (pre @ ''{'' @ body @ ''}'')
                       }
                   | JSON_BOOL \<Rightarrow>
                       do { v \<leftarrow> json_PrintValue fmt_f nd; Some (pre @ v) }
                   | JSON_VAR \<Rightarrow>
                       do { v \<leftarrow> json_PrintValue fmt_f nd; Some (pre @ v) }
                   | JSON_INVALID \<Rightarrow> Some pre)))"

text \<open>\<open>fp\<close> tells whether the stream pointer is non-null; the result is the text written.\<close>

definition JSON_Print :: "('f \<Rightarrow> string) \<Rightarrow> 'f world \<Rightarrow> ptr \<Rightarrow> bool \<Rightarrow> bool \<Rightarrow> string option" where
  "JSON_Print fmt_f w json fp comma =
     (if json \<noteq> NULL \<and> fp then print_rec fmt_f w False json comma else Some [])"

section \<open>The scanner (lexan.l)\<close>

datatype token =
    LBRACE | RBRACE | LBRACKET | RBRACKET
  | COMMA | SEMI | DQUOTE | DOT | COLON
  | ID | NUM | FLOAT | CHARSTR
  | TRUE | FALSE

definition backslash :: char where
  "backslash = CHR 0x5C"

definition newline :: char where
  "newline = CHR 0x0A"

definition tab :: char where
  "tab = CHR 0x09"

text \<open>The character classes \<^verbatim>\<open>letter\<close>, \<^verbatim>\<open>delim\<close> and \<^verbatim>\<open>nzdigit\<close>.\<close>

definition is_letter :: "char \<Rightarrow> bool" where
  "is_letter c =
     ((97 \<le> (of_char c :: nat) \<and> (of_char c :: nat) \<le> 122) \<or>
      (65 \<le> (of_char c :: nat) \<and> (of_char c :: nat) \<le> 90) \<or> c = CHR ''_'')"

definition is_delim :: "char \<Rightarrow> bool" where
  "is_delim c = (c = CHR '' '' \<or> c = tab)"

definition is_nzdigit :: "char \<Rightarrow> bool" where
  "is_nzdigit c = (is_digit c \<and> c \<noteq> CHR ''0'')"

text \<open>
  For each pattern, the length of the longest prefix of the input that it matches; 0 when
  it matches none (no pattern matches the empty text).
\<close>

definition match_ws :: "string \<Rightarrow> nat" where
  "match_ws s = length (takeWhile is_delim s)"

definition match_lit :: "string \<Rightarrow> string \<Rightarrow> nat" where
  "match_lit lit s = (if take (length lit) s = lit then length lit else 0)"

text \<open>
  \<^verbatim>\<open>{cmt}(.*)$\<close>: the dot matches no newline, and \<^verbatim>\<open>$\<close> is the trailing context of one
  newline, which counts for the length of the match and is then given back to the input.
\<close>

definition match_comment :: "string \<Rightarrow> nat" where
  "match_comment s =
     (case s of
        c1 # c2 # r \<Rightarrow>
          if c1 = CHR ''/'' \<and> c2 = CHR ''/'' then
            (let k = length (takeWhile (\<lambda>c. c \<noteq> newline) r)
             in if k < length r then k + 3 else 0)
          else 0
      | _ \<Rightarrow> 0)"

text \<open>
  \<^verbatim>\<open>\"([^"\\]|\\.)*\"\<close> after the opening quote: the number of characters up to and with
  the closing quote.
\<close>

fun charstr_body :: "string \<Rightarrow> nat" where
  "charstr_body [] = 0"
| "charstr_body (c # r) =
     (if c = dquote then 1
      else if c = backslash then
        (case r of
           [] \<Rightarrow> 0
         | e # r' \<Rightarrow>
             if e = newline then 0
             else (case charstr_body r' of 0 \<Rightarrow> 0 | Suc k \<Rightarrow> k + 3))
      else (case charstr_body r of 0 \<Rightarrow> 0 | Suc k \<Rightarrow> k + 2))"

definition match_charstr :: "string \<Rightarrow> nat" where
  "match_charstr s =
     (case s of
        [] \<Rightarrow> 0
      | c # r \<Rightarrow>
          if c = dquote then (case charstr_body r of 0 \<Rightarrow> 0 | Suc k \<Rightarrow> k + 2) else 0)"

text \<open>\<^verbatim>\<open>{letter}({letter}|{digit})*\<close>\<close>

definition match_id :: "string \<Rightarrow> nat" where
  "match_id s =
     (case s of
        [] \<Rightarrow> 0
      | c # r \<Rightarrow>
          if is_letter c then 1 + length (takeWhile (\<lambda>x. is_letter x \<or> is_digit x) r) else 0)"

text \<open>\<^verbatim>\<open>[-]?({digit}|({nzdigit}{digit}*))\<close>\<close>

definition num_body :: "string \<Rightarrow> nat" where
  "num_body s =
     (case s of
        [] \<Rightarrow> 0
      | c # r \<Rightarrow>
          if is_nzdigit c then 1 + length (takeWhile is_digit r)
          else if is_digit c then 1
          else 0)"

definition match_num :: "string \<Rightarrow> nat" where
  "match_num s =
     (case s of
        [] \<Rightarrow> 0
      | c # r \<Rightarrow>
          if c = CHR ''-'' then (case num_body r of 0 \<Rightarrow> 0 | Suc k \<Rightarrow> k + 2)
          else num_body s)"

text \<open>\<^verbatim>\<open>[-+]?[0-9]*\.[0-9]+([eE][-+]?[0-9]+)?\<close>\<close>

definition float_exp :: "string \<Rightarrow> nat" where
  "float_exp s =
     (case s of
        [] \<Rightarrow> 0
      | e # r \<Rightarrow>
          if e = CHR ''e'' \<or> e = CHR ''E'' then
            (case r of
               [] \<Rightarrow> 0
             | g # r' \<Rightarrow>
                 if g = CHR ''-'' \<or> g = CHR ''+'' then
                   (let k = length (takeWhile is_digit r') in if 0 < k then k + 2 else 0)
                 else
                   (let k = length (takeWhile is_digit r) in if 0 < k then k + 1 else 0))
          else 0)"

definition float_body :: "string \<Rightarrow> nat" where
  "float_body s =
     (let k1 = length (takeWhile is_digit s)
      in case drop k1 s of
           [] \<Rightarrow> 0
         | c # r \<Rightarrow>
             if c = CHR ''.'' then
               (let k2 = length (takeWhile is_digit r)
                in if 0 < k2 then k1 + 1 + k2 + float_exp (drop k2 r) else 0)
             else 0)"

definition match_floatnum :: "string \<Rightarrow> nat" where
  "match_floatnum s =
     (case s of
        [] \<Rightarrow> 0
      | c # r \<Rightarrow>
          if c = CHR ''-'' \<or> c = CHR ''+'' then (case float_body r of 0 \<Rightarrow> 0 | Suc k \<Rightarrow> k + 2)
          else float_body s)"

datatype action = Skip | Return token

text \<open>
  The rules in the order of the file: for each, the length of its match, the number of
  characters it takes from the input, and its action.
\<close>

definition rules :: "string \<Rightarrow> (nat \<times> nat \<times> action) list" where
  "rules s =
     [ (match_ws s, match_ws s, Skip),
       (match_comment s, match_comment s - 1, Skip),
       (match_lit [newline] s, match_lit [newline] s, Skip),
       (match_lit ''true'' s, match_lit ''true'' s, Return TRUE),
       (match_lit ''false'' s, match_lit ''false'' s, Return FALSE),
       (match_lit ''{'' s, match_lit ''{'' s, Return LBRACE),
       (match_lit ''}'' s, match_lit ''}'' s, Return RBRACE),
       (match_lit ''['' s, match_lit ''['' s, Return LBRACKET),
       (match_lit '']'' s, match_lit '']'' s, Return RBRACKET),
       (match_lit ''.'' s, match_lit ''.'' s, Return DOT),
       (match_lit '','' s, match_lit '','' s, Return COMMA),
       (match_lit '';'' s, match_lit '';'' s, Return SEMI),
       (match_lit '':'' s, match_lit '':'' s, Return COLON),
       (match_charstr s, match_charstr s, Return CHARSTR),
       (match_id s, match_id s, Return ID),
       (match_num s, match_num s, Return NUM),
       (match_floatnum s, match_floatnum s, Return FLOAT) ]"

text \<open>The longest match wins; among matches of the same length, the rule listed first.\<close>

definition best_rule :: "(nat \<times> nat \<times> action) list \<Rightarrow> nat \<times> nat \<times> action" where
  "best_rule rs = foldl (\<lambda>b r. if fst b < fst r then r else b) (0, 0, Skip) rs"

text \<open>
  The tokens that successive calls of \<^verbatim>\<open>yylex\<close> return up to the end of the input, each
  with its \<^verbatim>\<open>yytext\<close>. A character that no rule matches is copied to the standard output
  by the default rule and scanning goes on after it.
\<close>

fun yylex_all :: "string \<Rightarrow> (token \<times> string) list" where
  "yylex_all [] = []"
| "yylex_all (c # cs) =
     (case best_rule (rules (c # cs)) of
        (m, k, act) \<Rightarrow>
          if m = 0 then yylex_all cs
          else (case act of
                  Skip \<Rightarrow> yylex_all (drop (k - 1) cs)
                | Return t \<Rightarrow> (t, take k (c # cs)) # yylex_all (drop (k - 1) cs)))"

declare yylex_all.simps [simp del]

section \<open>The grammar (json\_parser.y)\<close>

text \<open>\<^verbatim>\<open>strdup\<close>: a copy of the C string, or a null pointer when memory is exhausted.\<close>

definition strdup :: "'f world \<Rightarrow> string \<Rightarrow> string option \<times> 'f world" where
  "strdup w s =
     (if avail w = 0 then (None, w) else (Some (c_str s), w\<lparr>avail := avail w - 1\<rparr>))"

definition escape :: "char \<Rightarrow> char" where
  "escape c =
     (if c = backslash then backslash
      else if c = CHR ''0'' then NUL
      else if c = CHR ''r'' then CHR 0x0D
      else if c = CHR ''n'' then newline
      else if c = CHR ''t'' then tab
      else if c = CHR 0x27 then CHR 0x27
      else if c = dquote then dquote
      else c)"

text \<open>
  The \<^verbatim>\<open>for\<close> loop of \<open>get_charstr\<close> over the characters \<^verbatim>\<open>s[0]\<close> .. \<^verbatim>\<open>s[l-2]\<close>, with the
  state of its state machine and the characters stored so far (\<^verbatim>\<open>s[0]\<close> .. \<^verbatim>\<open>s[j-1]\<close>; the
  loop never writes at an index it has yet to read).
\<close>

fun charstr_loop :: "string \<Rightarrow> nat \<Rightarrow> string \<Rightarrow> string" where
  "charstr_loop [] state out = out"
| "charstr_loop (c # cs) state out =
     (if state = 0 then
        (if c = backslash then charstr_loop cs 1 out
         else charstr_loop cs 0 (out @ [c]))
      else if state = 1 then charstr_loop cs 0 (out @ [escape c])
      else charstr_loop cs state out)"

text \<open>
  \<open>get_charstr\<close>. The result is the content of the buffer up to the final terminator.
  For a text shorter than the two quotes the code reads or writes outside the buffer.
\<close>

definition get_charstr :: "'f world \<Rightarrow> string option \<Rightarrow> (string option \<times> 'f world) option" where
  "get_charstr w str =
     (case str of
        None \<Rightarrow> Some (None, w)
      | Some t \<Rightarrow>
          (case c_str t of
             [] \<Rightarrow> None
           | q # rest \<Rightarrow>
               (case strdup w rest of
                  (None, w1) \<Rightarrow> Some (None, w1)
                | (Some s, w1) \<Rightarrow>
                    (let l = length s
                     in if l = 0 then None
                        else Some (Some (charstr_loop (take (l - 1) s) 0 []), w1)))))"

text \<open>
  The parser that bison generates from the grammar keeps one entry on its stack for the
  start state and one for every symbol read or reduced and not yet replaced by a
  reduction. The stack has room for \<^verbatim>\<open>YYINITDEPTH\<close> entries at first. When an entry takes the
  last place, the parser moves the stack to a block of twice the size (at most
  \<^verbatim>\<open>YYMAXDEPTH\<close> entries) from \<^verbatim>\<open>malloc\<close>; when the stack has \<^verbatim>\<open>YYMAXDEPTH\<close> places already, or
  \<^verbatim>\<open>malloc\<close> gives no memory, it reports \<^verbatim>\<open>memory exhausted\<close> and \<^verbatim>\<open>yyparse\<close> returns 2. The
  generated parser is not among the source files: this is the stack of bison's parser
  skeleton for C, and the grammar file defines neither constant, so that they have the
  values of the skeleton. An enlargement is one of the allocations that \<open>avail\<close> counts.
\<close>

definition YYINITDEPTH :: nat where
  "YYINITDEPTH = 200"

definition YYMAXDEPTH :: nat where
  "YYMAXDEPTH = 10000"

text \<open>
  \<open>yypush n sz w\<close>: the check the parser makes when the entry it pushes is the \<open>n\<close>-th of a
  stack with \<open>sz\<close> places. The result is the number of places afterwards, or the code with
  which \<^verbatim>\<open>yyparse\<close> returns at once (1 is \<^verbatim>\<open>YYABORT\<close>, when the enlarged stack is full as well).
\<close>

definition yypush :: "nat \<Rightarrow> nat \<Rightarrow> 'f world \<Rightarrow> (int + nat) \<times> 'f world" where
  "yypush n sz w =
     (if n < sz then (Inr sz, w)
      else if YYMAXDEPTH \<le> sz then (Inl 2, w)
      else if avail w = 0 then (Inl 2, w)
      else
        (let sz1 = min (2 * sz) YYMAXDEPTH;
             w1 = w\<lparr>avail := avail w - 1\<rparr>
         in if n < sz1 then (Inr sz1, w1) else (Inl 1, w1)))"

text \<open>
  The outcome of parsing one nonterminal: the parser has stopped and \<^verbatim>\<open>yyparse\<close> returns the
  code (1 after a syntax error, 2 when the stack cannot be enlarged), or the nonterminal
  has been reduced: its value, the tokens that remain, and the places of the stack.
\<close>

datatype 'f presult =
    Stopped int "'f world"
  | Parsed ptr "(token \<times> string) list" nat "'f world"

datatype nonterm = NT_json | NT_value_list | NT_attribute_list | NT_attribute | NT_value

definition next_is :: "token \<Rightarrow> (token \<times> string) list \<Rightarrow> bool" where
  "next_is t toks = (case toks of [] \<Rightarrow> False | tk # _ \<Rightarrow> fst tk = t)"

text \<open>
  The actions of the productions \<^verbatim>\<open>json_list\<close> and \<^verbatim>\<open>json_object\<close>. When \<open>JSON_Array\<close> fails,
  \<^verbatim>\<open>$$\<close> keeps the value of \<^verbatim>\<open>$1\<close>, the bracket token, which is the never assigned (zero)
  \<^verbatim>\<open>yylval\<close>.
\<close>

definition json_list_action :: "'f world \<Rightarrow> ptr \<Rightarrow> ptr \<times> 'f world" where
  "json_list_action w first =
     (let (pArray, w1) = JSON_Array w None
      in if pArray \<noteq> NULL then (pArray, modify w1 pArray (\<lambda>nd. nd\<lparr>pFirst := first\<rparr>))
         else (NULL, w1))"

definition json_object_action :: "'f world \<Rightarrow> ptr \<Rightarrow> ptr \<times> 'f world" where
  "json_object_action w first =
     (let (pObject, w1) = JSON_Object w None
      in if pObject \<noteq> NULL then (pObject, modify w1 pObject (\<lambda>nd. nd\<lparr>pFirst := first\<rparr>))
         else (NULL, w1))"

text \<open>\<^verbatim>\<open>$1->pNext = $3\<close> and \<^verbatim>\<open>$$->name = (char *)$1\<close>\<close>

definition set_pNext :: "'f world \<Rightarrow> ptr \<Rightarrow> ptr \<Rightarrow> 'f world option" where
  "set_pNext w p q =
     (case load w p of None \<Rightarrow> None | Some nd \<Rightarrow> Some (store w p (nd\<lparr>pNext := q\<rparr>)))"

definition set_name :: "'f world \<Rightarrow> ptr \<Rightarrow> string option \<Rightarrow> 'f world option" where
  "set_name w p name =
     (case load w p of None \<Rightarrow> None | Some nd \<Rightarrow> Some (store w p (nd\<lparr>node_name := name\<rparr>)))"

text \<open>
  The parser that the grammar describes, as a recursive descent over the token sequence:
  every production's action runs when its last symbol has been read, in the order in which
  the generated parser reduces. \<open>Stopped 1\<close> is the call of \<^verbatim>\<open>yyerror\<close> for a syntax error,
  after which the parser stops; the state it carries holds the nodes built and the value of
  \<^verbatim>\<open>root\<close> so far. The productions \<^verbatim>\<open>json_list\<close>, \<^verbatim>\<open>json_object\<close> and \<^verbatim>\<open>key\<close> are written out where
  they occur. \<open>atof\<close> is the C library's conversion.

  \<open>d\<close> is the number of entries on the parser's stack when the nonterminal begins and \<open>sz\<close>
  the number of places of the stack. Reading a token pushes an entry (\<open>yypush\<close>); a
  reduction replaces the entries of its right-hand side, which is never empty, by one
  entry, for which there is room: a nonterminal that begins with \<open>d\<close> entries leaves \<open>d + 1\<close>.
\<close>

partial_function (option) parse ::
  "(string \<Rightarrow> 'f) \<Rightarrow> nonterm \<Rightarrow> nat \<Rightarrow> nat \<Rightarrow> 'f world \<Rightarrow> (token \<times> string) list \<Rightarrow>
     'f presult option" where
  "parse atof nt d sz w toks =
     (case nt of
        NT_json \<Rightarrow>
          (if next_is LBRACKET toks then
             (case yypush (d + 1) sz w of
                (Inl rc, w0) \<Rightarrow> Some (Stopped rc w0)
              | (Inr sz0, w0) \<Rightarrow>
                  do {
                    res \<leftarrow> parse atof NT_value_list (d + 1) sz0 w0 (tl toks);
                    case res of
                      Stopped rc w1 \<Rightarrow> Some (Stopped rc w1)
                    | Parsed first r sz1 w1 \<Rightarrow>
                        if next_is RBRACKET r then
                          (case yypush (d + 3) sz1 w1 of
                             (Inl rc, w2) \<Rightarrow> Some (Stopped rc w2)
                           | (Inr sz2, w2) \<Rightarrow>
                               (let (p, w3) = json_list_action w2 first
                                in Some (Parsed p (tl r) sz2 (w3\<lparr>root := p\<rparr>))))
                        else Some (Stopped 1 w1)
                  })
           else if next_is LBRACE toks then
             (case yypush (d + 1) sz w of
                (Inl rc, w0) \<Rightarrow> Some (Stopped rc w0)
              | (Inr sz0, w0) \<Rightarrow>
                  do {
                    res \<leftarrow> parse atof NT_attribute_list (d + 1) sz0 w0 (tl toks);
                    case res of
                      Stopped rc w1 \<Rightarrow> Some (Stopped rc w1)
                    | Parsed first r sz1 w1 \<Rightarrow>
                        if next_is RBRACE r then
                          (case yypush (d + 3) sz1 w1 of
                             (Inl rc, w2) \<Rightarrow> Some (Stopped rc w2)
                           | (Inr sz2, w2) \<Rightarrow>
                               (let (p, w3) = json_object_action w2 first
                                in Some (Parsed p (tl r) sz2 (w3\<lparr>root := p\<rparr>))))
                        else Some (Stopped 1 w1)
                  })
           else Some (Stopped 1 w))
      | NT_value_list \<Rightarrow>
          do {
            res \<leftarrow> parse atof NT_value d sz w toks;
            case res of
              Stopped rc w1 \<Rightarrow> Some (Stopped rc w1)
            | Parsed v r sz1 w1 \<Rightarrow>
                if next_is COMMA r then
                  (case yypush (d + 2) sz1 w1 of
                     (Inl rc, w2) \<Rightarrow> Some (Stopped rc w2)
                   | (Inr sz2, w2) \<Rightarrow>
                       do {
                         res2 \<leftarrow> parse atof NT_value_list (d + 2) sz2 w2 (tl r);
                         case res2 of
                           Stopped rc w3 \<Rightarrow> Some (Stopped rc w3)
                         | Parsed vl r2 sz3 w3 \<Rightarrow>
                             (case set_pNext w3 v vl of
                                None \<Rightarrow> None
                              | Some w4 \<Rightarrow> Some (Parsed v r2 sz3 w4))
                       })
                else Some (Parsed v r sz1 w1)
          }
      | NT_attribute_list \<Rightarrow>
          do {
            res \<leftarrow> parse atof NT_attribute d sz w toks;
            case res of
              Stopped rc w1 \<Rightarrow> Some (Stopped rc w1)
            | Parsed v r sz1 w1 \<Rightarrow>
                if next_is COMMA r then
                  (case yypush (d + 2) sz1 w1 of
                     (Inl rc, w2) \<Rightarrow> Some (Stopped rc w2)
                   | (Inr sz2, w2) \<Rightarrow>
                       do {
                         res2 \<leftarrow> parse atof NT_attribute_list (d + 2) sz2 w2 (tl r);
                         case res2 of
                           Stopped rc w3 \<Rightarrow> Some (Stopped rc w3)
                         | Parsed vl r2 sz3 w3 \<Rightarrow>
                             (case set_pNext w3 v vl of
                                None \<Rightarrow> None
                              | Some w4 \<Rightarrow> Some (Parsed v r2 sz3 w4))
                       })
                else Some (Parsed v r sz1 w1)
          }
      | NT_attribute \<Rightarrow>
          (if next_is CHARSTR toks then
             (case yypush (d + 1) sz w of
                (Inl rc, w0) \<Rightarrow> Some (Stopped rc w0)
              | (Inr sz0, w0) \<Rightarrow>
                  (case get_charstr w0 (Some (snd (hd toks))) of
                     None \<Rightarrow> None
                   | Some (key, w1) \<Rightarrow>
                       if next_is COLON (tl toks) then
                         (case yypush (d + 2) sz0 w1 of
                            (Inl rc, w2) \<Rightarrow> Some (Stopped rc w2)
                          | (Inr sz2, w2) \<Rightarrow>
                              do {
                                res \<leftarrow> parse atof NT_value (d + 2) sz2 w2 (tl (tl toks));
                                case res of
                                  Stopped rc w3 \<Rightarrow> Some (Stopped rc w3)
                                | Parsed v r sz3 w3 \<Rightarrow>
                                    (case set_name w3 v key of
                                       None \<Rightarrow> None
                                     | Some w4 \<Rightarrow> Some (Parsed v r sz3 w4))
                              })
                       else Some (Stopped 1 w1)))
           else Some (Stopped 1 w))
      | NT_value \<Rightarrow>
          (if next_is NUM toks \<or> next_is FLOAT toks \<or> next_is TRUE toks \<or> next_is FALSE toks \<or>
              next_is CHARSTR toks then
             (case yypush (d + 1) sz w of
                (Inl rc, w0) \<Rightarrow> Some (Stopped rc w0)
              | (Inr sz0, w0) \<Rightarrow>
                  if next_is NUM toks then
                    (let (p, w1) = JSON_ParseNumber w0 None (Some (snd (hd toks)))
                     in Some (Parsed p (tl toks) sz0 w1))
                  else if next_is FLOAT toks then
                    (let (p, w1) = JSON_Float w0 None (atof (snd (hd toks)))
                     in Some (Parsed p (tl toks) sz0 w1))
                  else if next_is TRUE toks then
                    (let (p, w1) = JSON_Bool w0 None 1 in Some (Parsed p (tl toks) sz0 w1))
                  else if next_is FALSE toks then
                    (let (p, w1) = JSON_Bool w0 None 0 in Some (Parsed p (tl toks) sz0 w1))
                  else
                    (case get_charstr w0 (Some (snd (hd toks))) of
                       None \<Rightarrow> None
                     | Some (s, w1) \<Rightarrow>
                         (let (p, w2) = JSON_Str w1 None s in Some (Parsed p (tl toks) sz0 w2))))
           else parse atof NT_json d sz w toks))"

text \<open>
  \<^verbatim>\<open>yyparse\<close>: the stack holds the start state and has \<^verbatim>\<open>YYINITDEPTH\<close> places. The result is 0
  when the whole input is one \<^verbatim>\<open>json\<close>, 1 after a syntax error, 2 when the stack cannot be
  enlarged. After the \<^verbatim>\<open>json\<close> the stack holds two entries, and the end of the input, which
  the parser reads like a token, is the third.
\<close>

definition yyparse :: "(string \<Rightarrow> 'f) \<Rightarrow> 'f world \<Rightarrow> (token \<times> string) list \<Rightarrow> (int \<times> 'f world) option" where
  "yyparse atof w toks =
     (case parse atof NT_json 1 YYINITDEPTH w toks of
        None \<Rightarrow> None
      | Some (Stopped rc w1) \<Rightarrow> Some (rc, w1)
      | Some (Parsed p r sz w1) \<Rightarrow>
          if r = [] then
            (case yypush 3 sz w1 of
               (Inl rc, w2) \<Rightarrow> Some (rc, w2)
             | (Inr sz2, w2) \<Rightarrow> Some (0, w2))
          else Some (1, w1))"

section \<open>Entry points (json.c)\<close>

text \<open>\<open>JSON_ProcessBuffer\<close>; the scanner reads the buffer as a C string.\<close>

definition JSON_ProcessBuffer ::
  "(string \<Rightarrow> 'f) \<Rightarrow> 'f world \<Rightarrow> string option \<Rightarrow> (ptr \<times> 'f world) option" where
  "JSON_ProcessBuffer atof w buf =
     (case buf of
        None \<Rightarrow> Some (NULL, w)
      | Some b \<Rightarrow>
          (case yyparse atof w (yylex_all (c_str b)) of
             None \<Rightarrow> None
           | Some (rc, w1) \<Rightarrow> Some (if rc = 0 then root w1 else NULL, w1)))"

text \<open>
  \<open>JSON_Process\<close>; \<open>fopen_r\<close> gives the content of the file of a name, or \<open>None\<close> when it
  cannot be opened for reading.
\<close>

definition JSON_Process ::
  "(string \<Rightarrow> 'f) \<Rightarrow> (string \<Rightarrow> string option) \<Rightarrow> 'f world \<Rightarrow> string option \<Rightarrow> (ptr \<times> 'f world) option" where
  "JSON_Process atof fopen_r w inputFile =
     (case inputFile of
        None \<Rightarrow> Some (NULL, w)
      | Some name \<Rightarrow>
          (case fopen_r name of
             None \<Rightarrow> Some (NULL, w)
           | Some content \<Rightarrow>
               (case yyparse atof w (yylex_all content) of
                  None \<Rightarrow> None
                | Some (rc, w1) \<Rightarrow> Some (root w1, w1))))"

section \<open>Notions used in the statements\<close>

text \<open>
  The sibling list that starts at \<open>p\<close>: \<open>chain w p ps\<close> holds when following \<^verbatim>\<open>pNext\<close> from
  \<open>p\<close> visits exactly the nodes \<open>ps\<close>, in this order, and then reaches the null pointer.
\<close>

primrec chain :: "'f world \<Rightarrow> ptr \<Rightarrow> ptr list \<Rightarrow> bool" where
  "chain w p [] = (p = NULL)"
| "chain w p (q # qs) =
     (p = q \<and> q \<noteq> NULL \<and> (case load w q of None \<Rightarrow> False | Some nd \<Rightarrow> chain w (pNext nd) qs))"

text \<open>The state after a successful allocation that is initialised to the cell \<open>nd\<close>.\<close>

definition new_cell :: "'f world \<Rightarrow> 'f jnode \<Rightarrow> 'f world" where
  "new_cell w nd = w\<lparr>heap := heap w @ [nd], avail := avail w - 1\<rparr>"

text \<open>
  A decimal integer literal: digits, after an optional minus sign. Its value, and the kind
  that the number classifier of the specification gives it: the thresholds are applied to
  the value converted to 64 bits (signed for a literal that begins with a minus sign,
  unsigned otherwise; a value out of range converts to the nearest bound).
\<close>

definition is_decimal_literal :: "string \<Rightarrow> bool" where
  "is_decimal_literal s =
     (case s of
        [] \<Rightarrow> False
      | c # r \<Rightarrow> if c = CHR ''-'' then r \<noteq> [] \<and> list_all is_digit r else list_all is_digit s)"

definition literal_value :: "string \<Rightarrow> int" where
  "literal_value s =
     (case s of
        [] \<Rightarrow> 0
      | c # r \<Rightarrow> if c = CHR ''-'' then - int (digits_value r) else int (digits_value s))"

definition classify_number :: "string \<Rightarrow> JVarType" where
  "classify_number s =
     (if (case s of [] \<Rightarrow> False | c # _ \<Rightarrow> c = CHR ''-'') then
        (let n = max LLONG_MIN (min LLONG_MAX (literal_value s))
         in if - 32768 < n \<and> n < 32767 then JVARTYPE_INT16
            else if - 2147483648 < n \<and> n < 2147483647 then JVARTYPE_INT32
            else JVARTYPE_INT64)
      else
        (let n = min ULLONG_MAX (literal_value s)
         in if n < 65535 then JVARTYPE_UINT16
            else if n < 4294967295 then JVARTYPE_UINT32
            else JVARTYPE_UINT64))"

text \<open>An initial state with room for 64 allocations (\<open>'f\<close> is the unit type here).\<close>

definition world0 :: "unit world" where
  "world0 = \<lparr> heap = [], avail = 64, root = NULL \<rparr>"

text \<open>\<open>follows P s\<close>: the text \<open>s\<close> is empty or begins with a character that satisfies \<open>P\<close>.\<close>

definition follows :: "(char \<Rightarrow> bool) \<Rightarrow> string \<Rightarrow> bool" where
  "follows P s = (case s of [] \<Rightarrow> True | c # _ \<Rightarrow> P c)"

text \<open>A character other than the quote and the backslash.\<close>

definition plain_char :: "char \<Rightarrow> bool" where
  "plain_char c = (c \<noteq> dquote \<and> c \<noteq> backslash \<and> c \<noteq> NUL)"

text \<open>The input of the end-to-end property of the specification.\<close>

definition end_to_end_input :: string where
  "end_to_end_input =
     ''{'' @ [dquote] @ ''a'' @ [dquote] @ '':1,'' @ [dquote] @ ''b'' @ [dquote] @
     '':[true,false,'' @ [dquote] @ ''x'' @ [dquote] @ '']}''"

text \<open>The text of an unsigned \<^verbatim>\<open>num\<close> token: digits without a leading zero, or the single zero.\<close>

definition is_num_text :: "string \<Rightarrow> bool" where
  "is_num_text ds = (ds \<noteq> [] \<and> list_all is_digit ds \<and> (is_nzdigit (hd ds) \<or> ds = ''0''))"

text \<open>The text that the specification expects for it, and the text that the code writes.\<close>

definition end_to_end_expected :: string where
  "end_to_end_expected =
     ''{'' @ [dquote] @ ''a'' @ [dquote] @ '' : 1,'' @ [dquote] @ ''b'' @ [dquote] @
     '' : [true,false,'' @ [dquote] @ ''x'' @ [dquote] @ '']}''"

definition end_to_end_written :: string where
  "end_to_end_written =
     ''{'' @ [dquote] @ ''a'' @ [dquote] @ '' : 1,'' @ [dquote] @ ''b'' @ [dquote] @
     '' : [true,false ,'' @ [dquote] @ ''x'' @ [dquote] @ '']}''"

text \<open>The state in which parsing that input from \<open>world0\<close> ends; the root is the cell 6.\<close>

definition end_to_end_world :: "unit world" where
  "end_to_end_world =
     \<lparr> heap =
         [zero_node\<lparr>node_type := JSON_VAR, node_name := Some ''a'', pNext := 5,
            var_type := JVARTYPE_UINT16, var_len := 2, var_val := Val_ui 1\<rparr>,
          zero_node\<lparr>node_type := JSON_BOOL, pNext := 3,
            var_type := JVARTYPE_UINT16, var_len := 2, var_val := Val_ui 1\<rparr>,
          zero_node\<lparr>node_type := JSON_BOOL, pNext := 4,
            var_type := JVARTYPE_UINT16, var_len := 2, var_val := Val_ui 0\<rparr>,
          zero_node\<lparr>node_type := JSON_VAR,
            var_type := JVARTYPE_STR, var_len := 1, var_val := Val_str ''x''\<rparr>,
          zero_node\<lparr>node_type := JSON_ARRAY, node_name := Some ''b'', pFirst := 2\<rparr>,
          zero_node\<lparr>node_type := JSON_OBJECT, pFirst := 1\<rparr>],
       avail = 55, root = 6 \<rparr>"

text \<open>
  What the specification says of \<open>JSON_Iterate\<close>: the callback is applied to the children in
  order, each call seeing the state the previous one left; \<open>apply_calls\<close> gives the codes
  returned and the final state, \<open>last_failure\<close> the last code other than \<open>EOK\<close> (or \<open>EOK\<close>).
\<close>

fun apply_calls :: "(ptr \<Rightarrow> 'a \<Rightarrow> 's \<Rightarrow> int \<times> 's) \<Rightarrow> 'a \<Rightarrow> ptr list \<Rightarrow> 's \<Rightarrow> int list \<times> 's" where
  "apply_calls fn arg [] s = ([], s)"
| "apply_calls fn arg (p # ps) s =
     (case fn p arg s of
        (rc, s1) \<Rightarrow> (case apply_calls fn arg ps s1 of (rcs, s2) \<Rightarrow> (rc # rcs, s2)))"

definition last_failure :: "int list \<Rightarrow> int" where
  "last_failure rcs =
     (let fs = filter (\<lambda>rc. rc \<noteq> EOK) rcs in if fs = [] then EOK else last fs)"

text \<open>Appending the nodes \<open>ps\<close> to the array one after the other; the codes returned.\<close>

fun ArrayAdd_all :: "'f world \<Rightarrow> ptr \<Rightarrow> ptr list \<Rightarrow> (int list \<times> 'f world) option" where
  "ArrayAdd_all w pArray [] = Some ([], w)"
| "ArrayAdd_all w pArray (p # ps) =
     (case JSON_ArrayAdd w pArray p of
        None \<Rightarrow> None
      | Some (rc, w1) \<Rightarrow>
          (case ArrayAdd_all w1 pArray ps of
             None \<Rightarrow> None
           | Some (rcs, w2) \<Rightarrow> Some (rc # rcs, w2)))"

text \<open>A node that is in no list: an allocated cell whose \<^verbatim>\<open>pNext\<close> is null.\<close>

definition unlinked :: "'f world \<Rightarrow> ptr \<Rightarrow> bool" where
  "unlinked w p = (case load w p of None \<Rightarrow> False | Some nd \<Rightarrow> pNext nd = NULL)"

text \<open>
  An array whose children are the nodes \<open>ds\<close>: its list from \<^verbatim>\<open>pFirst\<close> is \<open>ds\<close> and, when
  there are children, \<^verbatim>\<open>pLast\<close> is the last of them.
\<close>

definition array_of :: "'f world \<Rightarrow> ptr \<Rightarrow> ptr list \<Rightarrow> bool" where
  "array_of w pArray ds =
     (case load w pArray of
        None \<Rightarrow> False
      | Some a \<Rightarrow> node_type a = JSON_ARRAY \<and> chain w (pFirst a) ds \<and>
          (if ds = [] then True else pLast a = last ds))"

text \<open>
  The state after \<open>JSON_Array\<close> and three calls of \<open>JSON_Num\<close> from \<open>world0\<close>: the array is
  the cell 1, the numbers are the cells 2, 3 and 4.
\<close>

definition world_arr3 :: "unit world" where
  "world_arr3 =
     \<lparr> heap =
         [zero_node\<lparr>node_name := None, node_type := JSON_ARRAY\<rparr>,
          zero_node\<lparr>node_name := None, node_type := JSON_VAR, var_type := JVARTYPE_UINT32,
            var_len := 4, var_val := Val_ul 10\<rparr>,
          zero_node\<lparr>node_name := None, node_type := JSON_VAR, var_type := JVARTYPE_UINT32,
            var_len := 4, var_val := Val_ul 20\<rparr>,
          zero_node\<lparr>node_name := None, node_type := JSON_VAR, var_type := JVARTYPE_UINT32,
            var_len := 4, var_val := Val_ul 30\<rparr>],
       avail = 60, root = NULL \<rparr>"

text \<open>
  A callback that records the node it is called with and returns 7 for the node 2, 5 for
  the node 3 and \<open>EOK\<close> otherwise.
\<close>

definition log_call :: "ptr \<Rightarrow> unit \<Rightarrow> ptr list \<Rightarrow> int \<times> ptr list" where
  "log_call p arg s = (if p = 2 then 7 else if p = 3 then 5 else EOK, s @ [p])"

text \<open>The state after appending the three numbers to the array of \<open>world_arr3\<close>.\<close>

definition world_arr3_linked :: "unit world" where
  "world_arr3_linked =
     \<lparr> heap =
         [zero_node\<lparr>node_name := None, node_type := JSON_ARRAY, pFirst := 2, pLast := 4\<rparr>,
          zero_node\<lparr>node_name := None, node_type := JSON_VAR, pNext := 3,
            var_type := JVARTYPE_UINT32, var_len := 4, var_val := Val_ul 10\<rparr>,
          zero_node\<lparr>node_name := None, node_type := JSON_VAR, pNext := 4,
            var_type := JVARTYPE_UINT32, var_len := 4, var_val := Val_ul 20\<rparr>,
          zero_node\<lparr>node_name := None, node_type := JSON_VAR, var_type := JVARTYPE_UINT32,
            var_len := 4, var_val := Val_ul 30\<rparr>],
       avail = 60, root = NULL \<rparr>"

text \<open>
  String unescaping as the specification words it: scan from left to right; a backslash
  takes the character after it, which is mapped by the escape table; any other character is
  copied. (A backslash that ends the text, which the pattern of the scanner excludes, has
  no character to take and gives nothing.)
\<close>

fun unescape :: "string \<Rightarrow> string" where
  "unescape [] = []"
| "unescape [c] = (if c = backslash then [] else [c])"
| "unescape (c # e # r) =
     (if c = backslash then escape e # unescape r else c # unescape (e # r))"

text \<open>The characters between the quotes of the literal \<^verbatim>\<open>"a\nb\tc"\<close> of the specification.\<close>

definition escape_example :: string where
  "escape_example = [CHR ''a'', backslash, CHR ''n'', CHR ''b'', backslash, CHR ''t'', CHR ''c'']"

text \<open>
  The state in which parsing the text \<^verbatim>\<open>[[1]\<close> from \<open>world0\<close> stops with a syntax error: the
  inner array (cell 2) is built and \<^verbatim>\<open>root\<close> points to it.
\<close>

definition world_partial :: "unit world" where
  "world_partial =
     \<lparr> heap =
         [zero_node\<lparr>node_type := JSON_VAR, var_type := JVARTYPE_UINT16, var_len := 2,
            var_val := Val_ui 1\<rparr>,
          zero_node\<lparr>node_type := JSON_ARRAY, pFirst := 1\<rparr>],
       avail = 62, root = 2 \<rparr>"

section \<open>Trees and their text\<close>

text \<open>
  The tree that a node and its descendants form: the body of a node, and a list of children
  each with its name. \<open>BNum\<close> is a Var with an unsigned integer value, \<open>BFloat\<close> a Var with a
  float value.
\<close>

datatype 'f jbody =
    BBool bool | BStr string | BNum nat | BFloat 'f | BArr "'f jlist" | BObj "'f jlist"
  and 'f jlist = LNil | LCons "string option" "'f jbody" "'f jlist"

text \<open>
  \<open>repr w p b\<close>: in the state \<open>w\<close> the node \<open>p\<close> and its descendants form the tree \<open>b\<close>, with
  consistent kinds: a Bool holds 0 or 1 in \<^verbatim>\<open>val.ui\<close>, a string Var holds its string, a float
  Var its float, a number is a 32-bit unsigned Var (as \<open>JSON_Num\<close> makes it, with a value that
  \<^verbatim>\<open>%d\<close> prints as it is) or a 16-bit unsigned Var, and the children of an array or object are
  the list from \<^verbatim>\<open>pFirst\<close> (\<open>repr_list\<close>, which ends at a null \<^verbatim>\<open>pNext\<close>, so that there is no
  cycle).
\<close>

fun repr :: "'f world \<Rightarrow> ptr \<Rightarrow> 'f jbody \<Rightarrow> bool"
  and repr_list :: "'f world \<Rightarrow> ptr \<Rightarrow> 'f jlist \<Rightarrow> bool" where
  "repr w p (BBool b) =
     (case load w p of
        None \<Rightarrow> False
      | Some nd \<Rightarrow> node_type nd = JSON_BOOL \<and> var_val nd = Val_ui (if b then 1 else 0))"
| "repr w p (BStr s) =
     (case load w p of
        None \<Rightarrow> False
      | Some nd \<Rightarrow> node_type nd = JSON_VAR \<and> var_type nd = JVARTYPE_STR \<and> var_val nd = Val_str s)"
| "repr w p (BNum n) =
     (case load w p of
        None \<Rightarrow> False
      | Some nd \<Rightarrow>
          node_type nd = JSON_VAR \<and>
          (if var_type nd = JVARTYPE_UINT32 then var_val nd = Val_ul (of_nat n) \<and> n < 2147483648
           else var_type nd = JVARTYPE_UINT16 \<and> var_val nd = Val_ui (of_nat n) \<and> n < 65536))"
| "repr w p (BFloat x) =
     (case load w p of
        None \<Rightarrow> False
      | Some nd \<Rightarrow> node_type nd = JSON_VAR \<and> var_type nd = JVARTYPE_FLOAT \<and> var_val nd = Val_f x)"
| "repr w p (BArr l) =
     (case load w p of
        None \<Rightarrow> False
      | Some nd \<Rightarrow> node_type nd = JSON_ARRAY \<and> repr_list w (pFirst nd) l)"
| "repr w p (BObj l) =
     (case load w p of
        None \<Rightarrow> False
      | Some nd \<Rightarrow> node_type nd = JSON_OBJECT \<and> repr_list w (pFirst nd) l)"
| "repr_list w p LNil = (p = NULL)"
| "repr_list w p (LCons nm b l) =
     (case load w p of
        None \<Rightarrow> False
      | Some nd \<Rightarrow> node_name nd = nm \<and> repr w p b \<and> repr_list w (pNext nd) l)"

text \<open>The text of a tree: what \<open>JSON_Print\<close> writes for it (lemma \<open>print_rec_repr\<close>).\<close>

definition render_name :: "string option \<Rightarrow> string" where
  "render_name nm = (case nm of None \<Rightarrow> [] | Some k \<Rightarrow> [dquote] @ c_str k @ [dquote] @ '' : '')"

fun render_body :: "('f \<Rightarrow> string) \<Rightarrow> 'f jbody \<Rightarrow> string"
  and render_list :: "('f \<Rightarrow> string) \<Rightarrow> bool \<Rightarrow> 'f jlist \<Rightarrow> string" where
  "render_body fmt_f (BBool b) = (if b then ''true'' else ''false '')"
| "render_body fmt_f (BStr s) = [dquote] @ c_str s @ [dquote]"
| "render_body fmt_f (BNum n) = show_nat n"
| "render_body fmt_f (BFloat x) = fmt_f x"
| "render_body fmt_f (BArr l) = ''['' @ render_list fmt_f False l @ '']''"
| "render_body fmt_f (BObj l) = ''{'' @ render_list fmt_f False l @ ''}''"
| "render_list fmt_f comma LNil = []"
| "render_list fmt_f comma (LCons nm b l) =
     (if comma then '','' else []) @ render_name nm @ render_body fmt_f b @ render_list fmt_f True l"

text \<open>
  A decimal numeral with a fraction, as \<^verbatim>\<open>%f\<close> writes a finite value: digits, a point and
  digits, after an optional minus sign.
\<close>

definition is_float_text :: "string \<Rightarrow> bool" where
  "is_float_text t =
     (let u = (case t of [] \<Rightarrow> [] | c # r \<Rightarrow> if c = CHR ''-'' then r else t);
          i = takeWhile is_digit u
      in i \<noteq> [] \<and>
         (case drop (length i) u of
            [] \<Rightarrow> False
          | c # ds \<Rightarrow> c = CHR ''.'' \<and> ds \<noteq> [] \<and> list_all is_digit ds))"

text \<open>
  The trees for which the round trip is proved. A string value and a name have no quote,
  backslash or NUL; a number is below \<open>2\<^sup>3\<^sup>1\<close>; the text of a float is a decimal numeral with a
  fraction that \<open>atof\<close> converts to a float with the same text; an array and an object have
  at least one child; the children of an array have no name and the children of an object
  have one; the root is an array or an object (and has no name).
\<close>

fun rt_body :: "('f \<Rightarrow> string) \<Rightarrow> (string \<Rightarrow> 'f) \<Rightarrow> 'f jbody \<Rightarrow> bool"
  and rt_elems :: "('f \<Rightarrow> string) \<Rightarrow> (string \<Rightarrow> 'f) \<Rightarrow> 'f jlist \<Rightarrow> bool"
  and rt_members :: "('f \<Rightarrow> string) \<Rightarrow> (string \<Rightarrow> 'f) \<Rightarrow> 'f jlist \<Rightarrow> bool" where
  "rt_body fmt_f atof (BBool b) = True"
| "rt_body fmt_f atof (BStr s) = list_all plain_char s"
| "rt_body fmt_f atof (BNum n) = (n < 2147483648)"
| "rt_body fmt_f atof (BFloat x) =
     (is_float_text (fmt_f x) \<and> fmt_f (atof (fmt_f x)) = fmt_f x)"
| "rt_body fmt_f atof (BArr l) = (l \<noteq> LNil \<and> rt_elems fmt_f atof l)"
| "rt_body fmt_f atof (BObj l) = (l \<noteq> LNil \<and> rt_members fmt_f atof l)"
| "rt_elems fmt_f atof LNil = True"
| "rt_elems fmt_f atof (LCons nm b l) =
     (nm = None \<and> rt_body fmt_f atof b \<and> rt_elems fmt_f atof l)"
| "rt_members fmt_f atof LNil = True"
| "rt_members fmt_f atof (LCons nm b l) =
     ((case nm of None \<Rightarrow> False | Some k \<Rightarrow> list_all plain_char k) \<and>
      rt_body fmt_f atof b \<and> rt_members fmt_f atof l)"

definition is_container :: "'f jbody \<Rightarrow> bool" where
  "is_container b = (case b of BArr _ \<Rightarrow> True | BObj _ \<Rightarrow> True | _ \<Rightarrow> False)"

definition rt_root :: "('f \<Rightarrow> string) \<Rightarrow> (string \<Rightarrow> 'f) \<Rightarrow> 'f jbody \<Rightarrow> bool" where
  "rt_root fmt_f atof b = (is_container b \<and> rt_body fmt_f atof b)"

text \<open>The tokens of the text of a tree.\<close>

definition toks_name :: "string option \<Rightarrow> (token \<times> string) list" where
  "toks_name nm =
     (case nm of None \<Rightarrow> [] | Some k \<Rightarrow> [(CHARSTR, [dquote] @ k @ [dquote]), (COLON, '':'')])"

fun toks_body :: "('f \<Rightarrow> string) \<Rightarrow> 'f jbody \<Rightarrow> (token \<times> string) list"
  and toks_list :: "('f \<Rightarrow> string) \<Rightarrow> bool \<Rightarrow> 'f jlist \<Rightarrow> (token \<times> string) list" where
  "toks_body fmt_f (BBool b) = [if b then (TRUE, ''true'') else (FALSE, ''false'')]"
| "toks_body fmt_f (BStr s) = [(CHARSTR, [dquote] @ s @ [dquote])]"
| "toks_body fmt_f (BNum n) = [(NUM, show_nat n)]"
| "toks_body fmt_f (BFloat x) = [(FLOAT, fmt_f x)]"
| "toks_body fmt_f (BArr l) = [(LBRACKET, ''['')] @ toks_list fmt_f False l @ [(RBRACKET, '']'')]"
| "toks_body fmt_f (BObj l) = [(LBRACE, ''{'')] @ toks_list fmt_f False l @ [(RBRACE, ''}'')]"
| "toks_list fmt_f comma LNil = []"
| "toks_list fmt_f comma (LCons nm b l) =
     (if comma then [(COMMA, '','')] else []) @ toks_name nm @ toks_body fmt_f b @
     toks_list fmt_f True l"

text \<open>
  The tree that parsing the text of a tree gives: every float is the conversion of its
  text.
\<close>

fun reparse :: "('f \<Rightarrow> string) \<Rightarrow> (string \<Rightarrow> 'f) \<Rightarrow> 'f jbody \<Rightarrow> 'f jbody"
  and reparse_list :: "('f \<Rightarrow> string) \<Rightarrow> (string \<Rightarrow> 'f) \<Rightarrow> 'f jlist \<Rightarrow> 'f jlist" where
  "reparse fmt_f atof (BBool b) = BBool b"
| "reparse fmt_f atof (BStr s) = BStr s"
| "reparse fmt_f atof (BNum n) = BNum n"
| "reparse fmt_f atof (BFloat x) = BFloat (atof (fmt_f x))"
| "reparse fmt_f atof (BArr l) = BArr (reparse_list fmt_f atof l)"
| "reparse fmt_f atof (BObj l) = BObj (reparse_list fmt_f atof l)"
| "reparse_list fmt_f atof LNil = LNil"
| "reparse_list fmt_f atof (LCons nm b l) =
     LCons nm (reparse fmt_f atof b) (reparse_list fmt_f atof l)"

text \<open>
  The number of allocations of nodes and names that parsing the text of a tree makes, and
  the number of entries that it needs on the parser's stack above those that are there
  when the value, or the list, begins: one for a leaf; for an array or object the bracket,
  the list and the closing bracket; for the child of an object the key and the colon under
  its value; for the rest of a list the child before and the comma under it.
\<close>

fun allocs_body :: "'f jbody \<Rightarrow> nat"
  and allocs_list :: "'f jlist \<Rightarrow> nat" where
  "allocs_body (BBool b) = 1"
| "allocs_body (BStr s) = 2"
| "allocs_body (BNum n) = 1"
| "allocs_body (BFloat x) = 1"
| "allocs_body (BArr l) = allocs_list l + 1"
| "allocs_body (BObj l) = allocs_list l + 1"
| "allocs_list LNil = 0"
| "allocs_list (LCons nm b l) =
     (case nm of None \<Rightarrow> 0 | Some k \<Rightarrow> 1) + allocs_body b + allocs_list l"

fun stack_body :: "'f jbody \<Rightarrow> nat"
  and stack_list :: "'f jlist \<Rightarrow> nat" where
  "stack_body (BBool b) = 1"
| "stack_body (BStr s) = 1"
| "stack_body (BNum n) = 1"
| "stack_body (BFloat x) = 1"
| "stack_body (BArr l) = max 3 (1 + stack_list l)"
| "stack_body (BObj l) = max 3 (1 + stack_list l)"
| "stack_list LNil = 0"
| "stack_list (LCons nm b l) =
     max ((case nm of None \<Rightarrow> 0 | Some k \<Rightarrow> 2) + stack_body b)
         (if l = LNil then 0 else 2 + stack_list l)"

text \<open>The number of times a stack with \<open>sz\<close> places can still be enlarged.\<close>

function stack_grows :: "nat \<Rightarrow> nat" where
  "stack_grows sz =
     (if sz = 0 \<or> YYMAXDEPTH \<le> sz then 0 else 1 + stack_grows (min (2 * sz) YYMAXDEPTH))"
  by pat_completeness auto
termination
  by (relation "measure (\<lambda>sz. YYMAXDEPTH - sz)") (auto simp: YYMAXDEPTH_def)

declare stack_grows.simps [simp del]

text \<open>
  The layout in which the parser leaves a tree: \<open>prepr w lo p b\<close> is \<open>repr w p b\<close> with all
  cells of the tree at addresses above \<open>lo\<close> and up to \<open>p\<close>, the descendants below \<open>p\<close>; the
  trees of a list lie one after the other, above \<open>lo\<close> and up to \<open>hi\<close>.
\<close>

fun prepr :: "'f world \<Rightarrow> nat \<Rightarrow> ptr \<Rightarrow> 'f jbody \<Rightarrow> bool"
  and prepr_list :: "'f world \<Rightarrow> nat \<Rightarrow> nat \<Rightarrow> ptr \<Rightarrow> 'f jlist \<Rightarrow> bool" where
  "prepr w lo p (BBool b) = (lo < p \<and> repr w p (BBool b))"
| "prepr w lo p (BStr s) = (lo < p \<and> repr w p (BStr s))"
| "prepr w lo p (BNum n) = (lo < p \<and> repr w p (BNum n))"
| "prepr w lo p (BFloat x) = (lo < p \<and> repr w p (BFloat x))"
| "prepr w lo p (BArr l) =
     (lo < p \<and>
      (case load w p of
         None \<Rightarrow> False
       | Some nd \<Rightarrow> node_type nd = JSON_ARRAY \<and> prepr_list w lo (p - 1) (pFirst nd) l))"
| "prepr w lo p (BObj l) =
     (lo < p \<and>
      (case load w p of
         None \<Rightarrow> False
       | Some nd \<Rightarrow> node_type nd = JSON_OBJECT \<and> prepr_list w lo (p - 1) (pFirst nd) l))"
| "prepr_list w lo hi p LNil = (p = NULL)"
| "prepr_list w lo hi p (LCons nm b l) =
     (p \<le> hi \<and>
      (case load w p of
         None \<Rightarrow> False
       | Some nd \<Rightarrow> node_name nd = nm \<and> prepr w lo p b \<and> prepr_list w p hi (pNext nd) l))"

text \<open>
  The round trip: print the tree at \<open>json\<close>, parse the text with \<open>JSON_ProcessBuffer\<close>, print
  the root it returns. The result is the pair of the two texts.
\<close>

definition round_trip ::
  "('f \<Rightarrow> string) \<Rightarrow> (string \<Rightarrow> 'f) \<Rightarrow> 'f world \<Rightarrow> ptr \<Rightarrow> (string \<times> string) option" where
  "round_trip fmt_f atof w json =
     (case JSON_Print fmt_f w json True False of
        None \<Rightarrow> None
      | Some text1 \<Rightarrow>
          (case JSON_ProcessBuffer atof w (Some text1) of
             None \<Rightarrow> None
           | Some (json2, w2) \<Rightarrow>
               (case JSON_Print fmt_f w2 json2 True False of
                  None \<Rightarrow> None
                | Some text2 \<Rightarrow> Some (text1, text2))))"

text \<open>The characters that can follow a value in the text of a tree.\<close>

definition value_end :: "char \<Rightarrow> bool" where
  "value_end c = (c = CHR '','' \<or> c = CHR '']'' \<or> c = CHR ''}'')"

text \<open>\<open>w'\<close> keeps the cells of \<open>w\<close> as they are (and may have more).\<close>

definition heap_extends :: "'f world \<Rightarrow> 'f world \<Rightarrow> bool" where
  "heap_extends w w' = (\<exists>cs. heap w' = heap w @ cs)"

text \<open>
  The two list productions of the grammar have one shape: \<open>list_nt\<close> and \<open>item_nt\<close> give the
  nonterminals of the list and of its items for an object (\<open>True\<close>) and for an array, and
  \<open>rt_list\<close> the condition on the children.
\<close>

definition list_nt :: "bool \<Rightarrow> nonterm" where
  "list_nt m = (if m then NT_attribute_list else NT_value_list)"

definition item_nt :: "bool \<Rightarrow> nonterm" where
  "item_nt m = (if m then NT_attribute else NT_value)"

definition rt_list :: "('f \<Rightarrow> string) \<Rightarrow> (string \<Rightarrow> 'f) \<Rightarrow> bool \<Rightarrow> 'f jlist \<Rightarrow> bool" where
  "rt_list fmt_f atof m l = (if m then rt_members fmt_f atof l else rt_elems fmt_f atof l)"

text \<open>
  What parsing the text of a tree gives: \<open>parsed_as w w' p nm b\<close> holds when the state \<open>w'\<close>
  extends \<open>w\<close> by the cells of the tree \<open>b\<close>, the last of which is the root \<open>p\<close> of the tree,
  with the name \<open>nm\<close> and no sibling; \<open>parsed_list_as\<close> is the same for a list of children.
\<close>

definition parsed_as :: "'f world \<Rightarrow> 'f world \<Rightarrow> ptr \<Rightarrow> string option \<Rightarrow> 'f jbody \<Rightarrow> bool" where
  "parsed_as w w' p nm b =
     (p = length (heap w') \<and> prepr w' (length (heap w)) p b \<and> heap_extends w w' \<and>
      (case load w' p of None \<Rightarrow> False | Some nd \<Rightarrow> node_name nd = nm \<and> pNext nd = NULL))"

definition parsed_list_as :: "'f world \<Rightarrow> 'f world \<Rightarrow> ptr \<Rightarrow> 'f jlist \<Rightarrow> bool" where
  "parsed_list_as w w' first l =
     (prepr_list w' (length (heap w)) (length (heap w')) first l \<and> heap_extends w w')"

text \<open>
  The stack during a parse: \<open>stack_ok d sz\<close> holds when \<open>d\<close> entries are on a stack of \<open>sz\<close>
  places of which the last is free. The allocations of a part of a parse:
  \<open>spent w sz w' sz' n\<close> holds when between the states \<open>w\<close> and \<open>w'\<close> there were \<open>n\<close>
  allocations of nodes and names and those that enlarged the stack from \<open>sz\<close> to \<open>sz'\<close> places.
\<close>

definition stack_ok :: "nat \<Rightarrow> nat \<Rightarrow> bool" where
  "stack_ok d sz = (d < sz \<and> YYINITDEPTH \<le> sz \<and> sz \<le> YYMAXDEPTH)"

definition spent :: "'f world \<Rightarrow> nat \<Rightarrow> 'f world \<Rightarrow> nat \<Rightarrow> nat \<Rightarrow> bool" where
  "spent w sz w' sz' n =
     (sz \<le> sz' \<and> avail w' + n + stack_grows sz = avail w + stack_grows sz')"

text \<open>
  Stand-ins for \<^verbatim>\<open>float\<close> and its two conversions: the unit type where no float occurs, and
  the type of the text itself, which both conversions leave as it is.
\<close>

definition fmt_unit :: "unit \<Rightarrow> string" where
  "fmt_unit x = []"

definition atof_unit :: "string \<Rightarrow> unit" where
  "atof_unit s = ()"

definition fmt_text :: "string \<Rightarrow> string" where
  "fmt_text x = x"

definition atof_text :: "string \<Rightarrow> string" where
  "atof_text s = s"

text \<open>
  A state with the object \<^verbatim>\<open>{"a" : 1.500000,"b" : [true,"x",7]}\<close> as the constructors and the
  append operations build it (the object is the cell 6), its tree and its text.
\<close>

definition world_floats :: "string world" where
  "world_floats =
     \<lparr> heap =
         [zero_node\<lparr>node_type := JSON_VAR, node_name := Some ''a'', pNext := 5,
            var_type := JVARTYPE_FLOAT, var_len := 4, var_val := Val_f ''1.500000''\<rparr>,
          zero_node\<lparr>node_type := JSON_BOOL, pNext := 3,
            var_type := JVARTYPE_UINT16, var_len := 2, var_val := Val_ui 1\<rparr>,
          zero_node\<lparr>node_type := JSON_VAR, pNext := 4,
            var_type := JVARTYPE_STR, var_len := 1, var_val := Val_str ''x''\<rparr>,
          zero_node\<lparr>node_type := JSON_VAR,
            var_type := JVARTYPE_UINT32, var_len := 4, var_val := Val_ul 7\<rparr>,
          zero_node\<lparr>node_type := JSON_ARRAY, node_name := Some ''b'', pFirst := 2, pLast := 4\<rparr>,
          zero_node\<lparr>node_type := JSON_OBJECT, pFirst := 1, pLast := 5\<rparr>],
       avail = 58, root = NULL \<rparr>"

definition floats_tree :: "string jbody" where
  "floats_tree =
     BObj (LCons (Some ''a'') (BFloat ''1.500000'')
          (LCons (Some ''b'')
             (BArr (LCons None (BBool True) (LCons None (BStr ''x'') (LCons None (BNum 7) LNil))))
           LNil))"

definition floats_text :: string where
  "floats_text =
     ''{'' @ [dquote] @ ''a'' @ [dquote] @ '' : 1.500000,'' @ [dquote] @ ''b'' @ [dquote] @
     '' : [true,'' @ [dquote] @ ''x'' @ [dquote] @ '',7]}''"

section \<open>Basic facts about the heap\<close>

lemma valid_ptr_store [simp]: "valid_ptr (store w p nd) q = valid_ptr w q"
  by (simp add: valid_ptr_def store_def)

lemma pred_neq: "0 < p \<Longrightarrow> 0 < q \<Longrightarrow> p \<noteq> q \<Longrightarrow> p - Suc 0 \<noteq> q - Suc 0"
  by arith

lemma load_store: "load (store w p nd) q = (if q = p \<and> valid_ptr w p then Some nd else load w q)"
  by (auto simp: load_def store_def valid_ptr_def nth_list_update pred_neq)

lemma load_store_same [simp]: "valid_ptr w p \<Longrightarrow> load (store w p nd) p = Some nd"
  by (simp add: load_store)

lemma load_store_other [simp]: "q \<noteq> p \<Longrightarrow> load (store w p nd) q = load w q"
  by (simp add: load_store)

lemma load_NULL [simp]: "load w NULL = None"
  by (simp add: load_def valid_ptr_def)

lemma load_Some_valid: "load w p = Some nd \<Longrightarrow> valid_ptr w p"
  by (simp add: load_def split: if_splits)

lemma valid_ptr_load: "valid_ptr w p \<Longrightarrow> \<exists>nd. load w p = Some nd"
  by (simp add: load_def)

lemma avail_store [simp]: "avail (store w p nd) = avail w"
  by (simp add: store_def)

lemma root_store [simp]: "root (store w p nd) = root w"
  by (simp add: store_def)

lemma length_heap_store [simp]: "length (heap (store w p nd)) = length (heap w)"
  by (simp add: store_def)

lemma modify_load: "load w p = Some nd \<Longrightarrow> modify w p f = store w p (f nd)"
  by (simp add: modify_def load_def split: if_splits)

lemma calloc_fail: "avail w = 0 \<Longrightarrow> calloc w = (NULL, w)"
  by (simp add: calloc_def)

lemma load_new_cell: "load (new_cell w nd) p = (if p = Suc (length (heap w)) then Some nd else load w p)"
  by (auto simp: load_def new_cell_def valid_ptr_def nth_append)

lemma valid_ptr_new_cell: "valid_ptr (new_cell w nd) p = (valid_ptr w p \<or> p = Suc (length (heap w)))"
  by (auto simp: new_cell_def valid_ptr_def)

lemma JSON_Var_ok:
  "0 < avail w \<Longrightarrow> JSON_Var w name =
     (Suc (length (heap w)), new_cell w (zero_node\<lparr>node_name := name, node_type := JSON_VAR\<rparr>))"
  by (simp add: JSON_Var_def calloc_def store_def new_cell_def valid_ptr_def)

lemma JSON_Var_fail: "avail w = 0 \<Longrightarrow> JSON_Var w name = (NULL, w)"
  by (simp add: JSON_Var_def calloc_def)

lemma modify_new_cell: "modify (new_cell w nd) (Suc (length (heap w))) f = new_cell w (f nd)"
  by (simp add: modify_def new_cell_def store_def valid_ptr_def)

section \<open>The number classifier\<close>

lemma is_digit_not_NUL: "is_digit c \<Longrightarrow> c \<noteq> NUL"
  by (auto simp: is_digit_def NUL_def)

lemma is_digit_not_space: "is_digit c \<Longrightarrow> \<not> isspace c"
  by (auto simp: is_digit_def isspace_def)

lemma is_digit_not_sign: "is_digit c \<Longrightarrow> c \<noteq> CHR ''-'' \<and> c \<noteq> CHR ''+''"
  by (auto simp: is_digit_def)

lemma c_str_digits: "list_all is_digit ds \<Longrightarrow> c_str ds = ds"
  unfolding c_str_def by (induction ds) (auto simp: is_digit_not_NUL)

lemma takeWhile_digits: "list_all is_digit ds \<Longrightarrow> takeWhile is_digit ds = ds"
  by (induction ds) auto

lemma c_str_minus: "c_str (CHR ''-'' # r) = CHR ''-'' # c_str r"
  by (simp add: c_str_def NUL_def)

lemma strto_subject_neg:
  "list_all is_digit r \<Longrightarrow> strto_subject (CHR ''-'' # r) = - int (digits_value r)"
  by (simp add: strto_subject_def isspace_def takeWhile_digits)

lemma strto_subject_pos:
  assumes "list_all is_digit (c # r)"
  shows "strto_subject (c # r) = int (digits_value (c # r))"
proof -
  from assms have c: "is_digit c" by simp
  have "dropWhile isspace (c # r) = c # r"
    using is_digit_not_space[OF c] by simp
  moreover have "takeWhile is_digit (c # r) = c # r"
    using assms by (rule takeWhile_digits)
  ultimately show ?thesis
    using is_digit_not_sign[OF c] by (simp add: strto_subject_def)
qed

lemma strto_subject_literal:
  assumes "is_decimal_literal s"
  shows "strto_subject (c_str s) = literal_value s"
proof (cases s)
  case Nil
  with assms show ?thesis by (simp add: is_decimal_literal_def)
next
  case (Cons c r)
  show ?thesis
  proof (cases "c = CHR ''-''")
    case True
    with Cons assms have "list_all is_digit r" by (simp add: is_decimal_literal_def)
    then show ?thesis using Cons True
      by (simp add: c_str_minus c_str_digits strto_subject_neg literal_value_def)
  next
    case False
    with Cons assms have d: "list_all is_digit (c # r)" by (simp add: is_decimal_literal_def)
    show ?thesis using Cons False strto_subject_pos[OF d] c_str_digits[OF d]
      by (simp add: literal_value_def)
  qed
qed

lemma sint_word64:
  assumes "- 9223372036854775808 \<le> v" "v \<le> 9223372036854775807"
  shows "sint (word_of_int v :: 64 word) = v"
proof -
  have "(v + 9223372036854775808) mod 18446744073709551616 = v + 9223372036854775808"
    using assms by (intro mod_pos_pos_trivial) auto
  then show ?thesis
    by (simp add: int_word_sint)
qed

lemma uint_word64:
  assumes "0 \<le> v" "v \<le> 18446744073709551615"
  shows "uint (word_of_int v :: 64 word) = v"
proof -
  have "v mod 18446744073709551616 = v"
    using assms by (intro mod_pos_pos_trivial) auto
  then show ?thesis
    by (simp add: uint_word_of_int)
qed

lemma sint_strtoll:
  "sint (strtoll s) = max LLONG_MIN (min LLONG_MAX (strto_subject (c_str s)))"
proof -
  let ?v = "strto_subject (c_str s)"
  consider "?v > LLONG_MAX" | "?v < LLONG_MIN" | "LLONG_MIN \<le> ?v \<and> ?v \<le> LLONG_MAX"
    by linarith
  then show ?thesis
  proof cases
    case 1
    then show ?thesis
      by (simp add: strtoll_def Let_def LLONG_MAX_def LLONG_MIN_def sint_word64)
  next
    case 2
    then show ?thesis
      by (simp add: strtoll_def Let_def LLONG_MAX_def LLONG_MIN_def sint_word64)
  next
    case 3
    then show ?thesis
      by (simp add: strtoll_def Let_def LLONG_MAX_def LLONG_MIN_def sint_word64)
  qed
qed

lemma uint_strtoull:
  assumes "0 \<le> strto_subject (c_str s)"
  shows "uint (strtoull s) = min ULLONG_MAX (strto_subject (c_str s))"
proof (cases "strto_subject (c_str s) > ULLONG_MAX")
  case True
  then show ?thesis using assms
    by (simp add: strtoull_def Let_def ULLONG_MAX_def uint_word64)
next
  case False
  then show ?thesis using assms
    by (simp add: strtoull_def Let_def ULLONG_MAX_def uint_word64)
qed

lemma literal_value_nonneg:
  "\<not> (case s of [] \<Rightarrow> False | c # _ \<Rightarrow> c = CHR ''-'') \<Longrightarrow> 0 \<le> literal_value s"
  by (simp add: literal_value_def split: list.splits)

lemma JSON_ParseNumber_neg:
  assumes "0 < avail w" and "(case s of [] \<Rightarrow> False | c # _ \<Rightarrow> c = CHR ''-'')"
  shows "\<exists>w'. JSON_ParseNumber w name (Some s) = (Suc (length (heap w)), w') \<and>
     map_option var_type (load w' (Suc (length (heap w)))) = Some
          (if - 32768 < sint (strtoll s) \<and> sint (strtoll s) < 32767 then JVARTYPE_INT16
           else if - 2147483648 < sint (strtoll s) \<and> sint (strtoll s) < 2147483647 then JVARTYPE_INT32
           else JVARTYPE_INT64)"
  using assms
  by (simp add: JSON_ParseNumber_def JSON_Var_ok modify_new_cell load_new_cell Let_def)

lemma JSON_ParseNumber_nonneg:
  assumes "0 < avail w" and "\<not> (case s of [] \<Rightarrow> False | c # _ \<Rightarrow> c = CHR ''-'')"
  shows "\<exists>w'. JSON_ParseNumber w name (Some s) = (Suc (length (heap w)), w') \<and>
     map_option var_type (load w' (Suc (length (heap w)))) = Some
          (if uint (strtoull s) < 65535 then JVARTYPE_UINT16
           else if uint (strtoull s) < 4294967295 then JVARTYPE_UINT32
           else JVARTYPE_UINT64)"
  using assms
  by (simp add: JSON_ParseNumber_def JSON_Var_ok modify_new_cell load_new_cell Let_def)

text \<open>
  Claim C1. For every decimal integer literal, \<open>JSON_ParseNumber\<close> (with memory for the node)
  returns a node whose scalar kind is the one the number classifier selects by the strict
  thresholds on the 64-bit converted value: for a literal with a minus sign the 16-bit signed
  kind when \<open>-32768 < n < 32767\<close>, else the 32-bit signed kind when
  \<open>-2147483648 < n < 2147483647\<close>, else the 64-bit signed kind; otherwise the 16-bit unsigned
  kind when \<open>n < 65535\<close>, else the 32-bit unsigned kind when \<open>n < 4294967295\<close>, else the 64-bit
  unsigned kind.
\<close>

theorem JSON_ParseNumber_classifies:
  assumes "is_decimal_literal s" and "0 < avail w"
  shows "(case JSON_ParseNumber w name (Some s) of
            (p, w') \<Rightarrow> p \<noteq> NULL \<and> map_option var_type (load w' p) = Some (classify_number s))"
proof -
  have v: "strto_subject (c_str s) = literal_value s"
    using assms(1) by (rule strto_subject_literal)
  show ?thesis
  proof (cases "(case s of [] \<Rightarrow> False | c # _ \<Rightarrow> c = CHR ''-'')")
    case True
    have "sint (strtoll s) = max LLONG_MIN (min LLONG_MAX (literal_value s))"
      by (simp only: sint_strtoll v)
    with JSON_ParseNumber_neg[OF assms(2) True, of name] True show ?thesis
      by (auto simp only: classify_number_def Let_def if_True)
  next
    case False
    then have "0 \<le> strto_subject (c_str s)"
      using literal_value_nonneg v by simp
    then have "uint (strtoull s) = min ULLONG_MAX (literal_value s)"
      by (simp only: uint_strtoull v)
    with JSON_ParseNumber_nonneg[OF assms(2) False, of name] False show ?thesis
      by (auto simp only: classify_number_def Let_def if_False)
  qed
qed

text \<open>
  The boundary literals of the specification: \<open>65535\<close> is 32-bit unsigned, \<open>65534\<close> is 16-bit
  unsigned, \<open>-32768\<close> is 32-bit signed and \<open>-32767\<close> is 16-bit signed.
\<close>

theorem JSON_ParseNumber_classifies_witness:
  "is_decimal_literal ''65535'' \<and> is_decimal_literal ''65534'' \<and>
   is_decimal_literal ''-32768'' \<and> is_decimal_literal ''-32767'' \<and> 0 < avail world0 \<and>
   (case JSON_ParseNumber world0 None (Some ''65535'') of
      (p, w') \<Rightarrow> p \<noteq> NULL \<and> map_option var_type (load w' p) = Some JVARTYPE_UINT32) \<and>
   (case JSON_ParseNumber world0 None (Some ''65534'') of
      (p, w') \<Rightarrow> p \<noteq> NULL \<and> map_option var_type (load w' p) = Some JVARTYPE_UINT16) \<and>
   (case JSON_ParseNumber world0 None (Some ''-32768'') of
      (p, w') \<Rightarrow> p \<noteq> NULL \<and> map_option var_type (load w' p) = Some JVARTYPE_INT32) \<and>
   (case JSON_ParseNumber world0 None (Some ''-32767'') of
      (p, w') \<Rightarrow> p \<noteq> NULL \<and> map_option var_type (load w' p) = Some JVARTYPE_INT16)"
proof -
  have a: "0 < avail world0"
    by (simp add: world0_def)
  have l1: "is_decimal_literal ''65535''" and l2: "is_decimal_literal ''65534''"
    and l3: "is_decimal_literal ''-32768''" and l4: "is_decimal_literal ''-32767''"
    by (simp_all add: is_decimal_literal_def is_digit_def)
  have c1: "classify_number ''65535'' = JVARTYPE_UINT32"
    by (simp add: classify_number_def literal_value_def digits_value_def digit_val_def ULLONG_MAX_def)
  have c2: "classify_number ''65534'' = JVARTYPE_UINT16"
    by (simp add: classify_number_def literal_value_def digits_value_def digit_val_def ULLONG_MAX_def)
  have c3: "classify_number ''-32768'' = JVARTYPE_INT32"
    by (simp add: classify_number_def literal_value_def digits_value_def digit_val_def
        LLONG_MAX_def LLONG_MIN_def)
  have c4: "classify_number ''-32767'' = JVARTYPE_INT16"
    by (simp add: classify_number_def literal_value_def digits_value_def digit_val_def
        LLONG_MAX_def LLONG_MIN_def)
  show ?thesis
    using JSON_ParseNumber_classifies[OF l1 a, of None] JSON_ParseNumber_classifies[OF l2 a, of None]
      JSON_ParseNumber_classifies[OF l3 a, of None] JSON_ParseNumber_classifies[OF l4 a, of None]
      a l1 l2 l3 l4
    by (simp only: c1 c2 c3 c4 simp_thms)
qed

section \<open>The scanner on single tokens\<close>

lemmas lex_defs = yylex_all.simps rules_def best_rule_def match_ws_def match_lit_def match_comment_def
  match_charstr_def match_id_def match_num_def num_body_def match_floatnum_def float_body_def
  float_exp_def is_delim_def is_letter_def is_digit_def is_nzdigit_def dquote_def backslash_def
  newline_def tab_def

lemma lex_LBRACE: "yylex_all (CHR ''{'' # s) = (LBRACE, ''{'') # yylex_all s"
  by (simp add: lex_defs split: list.split)

lemma lex_RBRACE: "yylex_all (CHR ''}'' # s) = (RBRACE, ''}'') # yylex_all s"
  by (simp add: lex_defs split: list.split)

lemma lex_LBRACKET: "yylex_all (CHR ''['' # s) = (LBRACKET, ''['') # yylex_all s"
  by (simp add: lex_defs split: list.split)

lemma lex_RBRACKET: "yylex_all (CHR '']'' # s) = (RBRACKET, '']'') # yylex_all s"
  by (simp add: lex_defs split: list.split)

lemma lex_COMMA: "yylex_all (CHR '','' # s) = (COMMA, '','') # yylex_all s"
  by (simp add: lex_defs split: list.split)

lemma lex_COLON: "yylex_all (CHR '':'' # s) = (COLON, '':'') # yylex_all s"
  by (simp add: lex_defs split: list.split)


lemma takeWhile_follows: "follows (\<lambda>c. \<not> P c) s \<Longrightarrow> takeWhile P s = []"
  by (cases s) (simp_all add: follows_def)

lemma lex_space:
  assumes "follows (\<lambda>c. \<not> is_delim c) s"
  shows "yylex_all (CHR '' '' # s) = yylex_all s"
proof -
  have "takeWhile is_delim s = []"
    using assms by (rule takeWhile_follows)
  then have "best_rule (rules (CHR '' '' # s)) = (1, 1, Skip)"
    by (simp add: rules_def best_rule_def match_ws_def match_lit_def match_comment_def
      match_charstr_def match_id_def match_num_def num_body_def match_floatnum_def float_body_def
      is_delim_def is_letter_def is_digit_def is_nzdigit_def dquote_def newline_def tab_def split: list.split)
  then show ?thesis by (simp add: yylex_all.simps)
qed

lemma lex_TRUE:
  assumes "follows (\<lambda>c. \<not> (is_letter c \<or> is_digit c)) s"
  shows "yylex_all (''true'' @ s) = (TRUE, ''true'') # yylex_all s"
proof -
  have "takeWhile (\<lambda>c. is_letter c \<or> is_digit c) s = []"
    using assms by (rule takeWhile_follows)
  then have "best_rule (rules (''true'' @ s)) = (4, 4, Return TRUE)"
    by (simp add: rules_def best_rule_def match_ws_def match_lit_def match_comment_def
      match_charstr_def match_id_def match_num_def num_body_def match_floatnum_def float_body_def
      is_delim_def is_letter_def is_digit_def is_nzdigit_def dquote_def newline_def tab_def split: list.split)
  then show ?thesis by (simp add: yylex_all.simps)
qed

lemma lex_FALSE:
  assumes "follows (\<lambda>c. \<not> (is_letter c \<or> is_digit c)) s"
  shows "yylex_all (''false'' @ s) = (FALSE, ''false'') # yylex_all s"
proof -
  have "takeWhile (\<lambda>c. is_letter c \<or> is_digit c) s = []"
    using assms by (rule takeWhile_follows)
  then have "best_rule (rules (''false'' @ s)) = (5, 5, Return FALSE)"
    by (simp add: rules_def best_rule_def match_ws_def match_lit_def match_comment_def
      match_charstr_def match_id_def match_num_def num_body_def match_floatnum_def float_body_def
      is_delim_def is_letter_def is_digit_def is_nzdigit_def dquote_def newline_def tab_def split: list.split)
  then show ?thesis by (simp add: yylex_all.simps)
qed

lemma charstr_body_plain:
  "list_all plain_char body \<Longrightarrow> charstr_body (body @ dquote # s) = Suc (length body)"
  by (induction body) (simp_all add: plain_char_def)

lemma lex_CHARSTR:
  assumes "list_all plain_char body"
  shows "yylex_all (dquote # body @ dquote # s) = (CHARSTR, dquote # body @ [dquote]) # yylex_all s"
proof -
  have "best_rule (rules (dquote # body @ dquote # s)) =
          (Suc (Suc (length body)), Suc (Suc (length body)), Return CHARSTR)"
    using charstr_body_plain[OF assms, of s]
    by (simp add: rules_def best_rule_def match_ws_def match_lit_def match_comment_def
      match_charstr_def match_id_def match_num_def num_body_def match_floatnum_def float_body_def
      is_delim_def is_letter_def is_digit_def is_nzdigit_def dquote_def newline_def tab_def split: list.split)
  then show ?thesis by (simp add: yylex_all.simps)
qed

lemma digit_not_special:
  assumes "is_digit d"
  shows "\<not> is_delim d" "\<not> is_letter d" "d \<noteq> CHR ''/''" "d \<noteq> newline" "d \<noteq> CHR ''t''"
    "d \<noteq> CHR ''f''" "d \<noteq> CHR ''{''" "d \<noteq> CHR ''}''" "d \<noteq> CHR ''[''" "d \<noteq> CHR '']''"
    "d \<noteq> CHR ''.''" "d \<noteq> CHR '',''" "d \<noteq> CHR '';''" "d \<noteq> CHR '':''" "d \<noteq> dquote"
    "d \<noteq> CHR ''-''" "d \<noteq> CHR ''+''"
  using assms by (auto simp: is_digit_def is_delim_def is_letter_def newline_def dquote_def tab_def)

lemma takeWhile_digits_follows:
  assumes "list_all is_digit r" and "follows (\<lambda>c. \<not> is_digit c \<and> c \<noteq> CHR ''.'') s"
  shows "takeWhile is_digit (r @ s) = r" and "drop (length r) (r @ s) = s"
proof -
  have "takeWhile is_digit s = []"
    using assms(2) by (cases s) (simp_all add: follows_def)
  then show "takeWhile is_digit (r @ s) = r"
    using assms(1) by (induction r) simp_all
  show "drop (length r) (r @ s) = s" by simp
qed

lemma float_body_num:
  assumes "list_all is_digit r" and "follows (\<lambda>c. \<not> is_digit c \<and> c \<noteq> CHR ''.'') s"
  shows "float_body (r @ s) = 0"
proof -
  have "(case s of [] \<Rightarrow> 0 | c # r' \<Rightarrow> if c = CHR ''.'' then
          (let k2 = length (takeWhile is_digit r')
           in if 0 < k2 then length r + 1 + k2 + float_exp (drop k2 r') else 0) else 0) = 0"
    using assms(2) by (cases s) (simp_all add: follows_def)
  then show ?thesis
    by (simp add: float_body_def takeWhile_digits_follows[OF assms])
qed

lemma num_body_text:
  assumes "is_num_text ds" and "follows (\<lambda>c. \<not> is_digit c \<and> c \<noteq> CHR ''.'') s"
  shows "num_body (ds @ s) = length ds"
proof (cases ds)
  case Nil
  with assms(1) show ?thesis by (simp add: is_num_text_def)
next
  case (Cons d r)
  with assms(1) have r: "list_all is_digit r" and d: "is_digit d"
    by (simp_all add: is_num_text_def)
  show ?thesis
  proof (cases "is_nzdigit d")
    case True
    then show ?thesis
      using Cons takeWhile_digits_follows(1)[OF r assms(2)] by (simp add: num_body_def)
  next
    case False
    with assms(1) Cons have "r = []" by (simp add: is_num_text_def)
    then show ?thesis
      using Cons False d by (simp add: num_body_def)
  qed
qed

lemma lex_NUM:
  assumes "is_num_text ds" and "follows (\<lambda>c. \<not> is_digit c \<and> c \<noteq> CHR ''.'') s"
  shows "yylex_all (ds @ s) = (NUM, ds) # yylex_all s"
proof -
  from assms(1) obtain d r where ds: "ds = d # r" and d: "is_digit d" and r: "list_all is_digit ds"
    by (cases ds) (auto simp: is_num_text_def)
  have n: "num_body (d # r @ s) = Suc (length r)"
    using num_body_text[OF assms] ds by simp
  have f: "float_body (d # r @ s) = 0"
    using float_body_num[OF r assms(2)] ds by simp
  note sp = digit_not_special[OF d]
  have "best_rule (rules (d # r @ s)) = (Suc (length r), Suc (length r), Return NUM)"
    using sp n f
    by (simp add: rules_def best_rule_def match_ws_def match_lit_def match_comment_def
      match_charstr_def match_id_def match_num_def match_floatnum_def split: list.split)
  then show ?thesis
    using ds by (simp add: yylex_all.simps)
qed


section \<open>The end-to-end example\<close>

lemma JSON_Bool_ok:
  "0 < avail w \<Longrightarrow> JSON_Bool w name num =
     (Suc (length (heap w)),
      new_cell w (zero_node\<lparr>node_name := name, node_type := JSON_BOOL, var_type := JVARTYPE_UINT16,
         var_len := 2, var_val := Val_ui (if sint num > 0 then 1 else 0)\<rparr>))"
  by (simp add: JSON_Bool_def JSON_Var_ok modify_new_cell)

lemma lex_end_to_end:
  "yylex_all end_to_end_input =
     [(LBRACE, ''{''), (CHARSTR, [CHR 0x22, CHR ''a'', CHR 0x22]), (COLON, '':''), (NUM, ''1''),
      (COMMA, '',''), (CHARSTR, [CHR 0x22, CHR ''b'', CHR 0x22]), (COLON, '':''), (LBRACKET, ''[''),
      (TRUE, ''true''), (COMMA, '',''), (FALSE, ''false''), (COMMA, '',''),
      (CHARSTR, [CHR 0x22, CHR ''x'', CHR 0x22]), (RBRACKET, '']''), (RBRACE, ''}'')]"
proof -
  have cs: "\<And>c s. plain_char c \<Longrightarrow>
      yylex_all (CHR 0x22 # c # CHR 0x22 # s) = (CHARSTR, [CHR 0x22, c, CHR 0x22]) # yylex_all s"
    using lex_CHARSTR[of "[c]" for c] by (simp add: dquote_def)
  have n1: "\<And>s. follows (\<lambda>c. \<not> is_digit c \<and> c \<noteq> CHR ''.'') s \<Longrightarrow>
      yylex_all (CHR ''1'' # s) = (NUM, ''1'') # yylex_all s"
    using lex_NUM[of "''1''"] by (simp add: is_num_text_def is_digit_def is_nzdigit_def)
  show ?thesis
    by (simp add: end_to_end_input_def dquote_def cs n1 lex_TRUE[simplified] lex_FALSE[simplified]
        lex_LBRACE lex_RBRACE lex_LBRACKET lex_RBRACKET lex_COMMA lex_COLON
        follows_def plain_char_def backslash_def NUL_def is_digit_def is_letter_def yylex_all.simps(1))
qed

text \<open>
  Unfolding the parser and the printer on a concrete state. The recursive equations apply to
  every call: use these sets only where the tokens and the nodes are explicit.
\<close>

lemmas parse_eval_defs = yyparse_def parse.simps yypush_def YYINITDEPTH_def YYMAXDEPTH_def
   next_is_def get_charstr_def strdup_def
   c_str_def NUL_def dquote_def backslash_def JSON_ParseNumber_def JSON_Var_def calloc_def store_def valid_ptr_def
   modify_def JSON_Bool_def JSON_Str_def strlen_def set_name_def set_pNext_def load_def json_list_action_def
   json_object_action_def JSON_Array_def JSON_Object_def strtoull_def strto_subject_def isspace_def is_digit_def
   digits_value_def digit_val_def ULLONG_MAX_def zero_node_def

lemmas print_eval_defs = JSON_Print_def print_rec.simps json_PrintValue_def get_ui_def get_ul_def get_str_def
   show_int_def digit_char_def load_def valid_ptr_def c_str_def NUL_def dquote_def char_of_eq_iff

lemma end_to_end_parse:
  "JSON_ProcessBuffer (\<lambda>_. ()) world0 (Some end_to_end_input) = Some (6, end_to_end_world)"
proof -
  have c: "c_str end_to_end_input = end_to_end_input"
    by (simp add: c_str_def end_to_end_input_def NUL_def dquote_def)
  show ?thesis
    unfolding JSON_ProcessBuffer_def option.case c lex_end_to_end
    by (simp add: world0_def end_to_end_world_def parse_eval_defs)
qed

lemma show_nat_digit: "n < 10 \<Longrightarrow> show_nat n = [digit_char n]"
  by (simp add: show_nat.simps)

lemma end_to_end_print:
  "JSON_Print (\<lambda>_. []) end_to_end_world 6 True False = Some end_to_end_written"
  by (simp add: end_to_end_world_def end_to_end_written_def print_eval_defs zero_node_def show_nat_digit)

text \<open>
  Claim C5. Parsing the input \<^verbatim>\<open>{"a":1,"b":[true,false,"x"]}\<close> with \<open>JSON_ProcessBuffer\<close> and
  printing the root with no leading comma writes \<^verbatim>\<open>{"a" : 1,"b" : [true,false ,"x"]}\<close>: the
  spacing around the colons is as the specification says and no newline is written, but a
  space follows \<^verbatim>\<open>false\<close>, so the text is not the one the specification expects.
\<close>

theorem end_to_end_output:
  "(case JSON_ProcessBuffer (\<lambda>_. ()) world0 (Some end_to_end_input) of
      None \<Rightarrow> None
    | Some (p, w) \<Rightarrow> JSON_Print (\<lambda>_. []) w p True False) = Some end_to_end_written \<and>
   end_to_end_written \<noteq> end_to_end_expected"
  by (simp add: end_to_end_parse end_to_end_print end_to_end_written_def end_to_end_expected_def)

section \<open>A null literal text, the Bool literals, the element count\<close>

text \<open>
  Claim C6 fails on the code: with a null literal text and memory for the node,
  \<open>JSON_ParseNumber\<close> returns a node, not a failure.
\<close>

theorem JSON_ParseNumber_null_text_counterexample:
  "fst (JSON_ParseNumber world0 None None) \<noteq> NULL"
  by (simp add: JSON_ParseNumber_def JSON_Var_ok world0_def)

text \<open>
  Claim C6, amended. For every name, \<open>JSON_ParseNumber\<close> with a null literal text signals no
  failure of its own: when the node can be allocated it returns a new node of kind
  \<open>JSON_VAR\<close> that carries the name and whose scalar kind, length and value are left zero
  (the invalid kind); it returns the null pointer only when the allocation fails.
\<close>

theorem JSON_ParseNumber_null_text:
  "(avail w = 0 \<longrightarrow> JSON_ParseNumber w name None = (NULL, w)) \<and>
   (0 < avail w \<longrightarrow>
      (case JSON_ParseNumber w name None of
         (p, w') \<Rightarrow> p \<noteq> NULL \<and> \<not> valid_ptr w p \<and>
           load w' p = Some (zero_node\<lparr>node_name := name, node_type := JSON_VAR\<rparr>)))"
  by (simp add: JSON_ParseNumber_def JSON_Var_ok JSON_Var_fail load_new_cell valid_ptr_def)

theorem JSON_ParseNumber_null_text_witness:
  "0 < avail world0 \<and>
   (case JSON_ParseNumber world0 (Some ''n'') None of
      (p, w') \<Rightarrow> p \<noteq> NULL \<and>
         map_option node_type (load w' p) = Some JSON_VAR \<and>
         map_option node_name (load w' p) = Some (Some ''n'') \<and>
         map_option var_type (load w' p) = Some JVARTYPE_INVALID \<and>
         map_option var_len (load w' p) = Some 0)"
proof -
  have a: "0 < avail world0" by (simp add: world0_def)
  show ?thesis
    using JSON_ParseNumber_null_text[of world0 "Some ''n''"] a
    by (auto simp: zero_node_def)
qed

text \<open>
  Claim C4. A Bool node with the value 1 is printed as \<^verbatim>\<open>true\<close>; a Bool node with the value 0
  is printed as \<^verbatim>\<open>false\<close> followed by a space, six characters and not the literal alone.
\<close>

theorem JSON_Print_false_trailing_space:
  "(case JSON_Bool world0 None 0 of (p, w) \<Rightarrow> JSON_Print (\<lambda>_. []) w p True False) = Some ''false '' \<and>
   (case JSON_Bool world0 None 1 of (p, w) \<Rightarrow> JSON_Print (\<lambda>_. []) w p True False) = Some ''true''"
  by (simp add: JSON_Bool_ok world0_def JSON_Print_def print_rec.simps load_new_cell
      json_PrintValue_def get_ui_def zero_node_def)

text \<open>
  Claim C3. After one \<open>JSON_ArrayAdd\<close> to a new array (and one \<open>JSON_ObjectAdd\<close> to a new
  object) the call returns \<open>EOK\<close>, the list from the head holds the appended node and ends
  at the tail, whose \<^verbatim>\<open>pNext\<close> is null, but the stored count \<^verbatim>\<open>n\<close> is still 0 while one
  node is reachable.
\<close>

theorem count_not_maintained:
  "(case JSON_Array world0 None of (arr, w1) \<Rightarrow>
      case JSON_Num w1 None 7 of (nd, w2) \<Rightarrow>
        case JSON_ArrayAdd w2 arr nd of
          None \<Rightarrow> False
        | Some (rc, w3) \<Rightarrow>
            rc = EOK \<and>
            (case load w3 arr of
               None \<Rightarrow> False
             | Some a \<Rightarrow> chain w3 (pFirst a) [nd] \<and> pLast a = nd \<and> arr_n a = 0 \<and>
                 arr_n a \<noteq> length [nd])) \<and>
   (case JSON_Object world0 None of (obj, w1) \<Rightarrow>
      case JSON_Num w1 (Some ''k'') 7 of (nd, w2) \<Rightarrow>
        case JSON_ObjectAdd w2 obj nd of
          None \<Rightarrow> False
        | Some (rc, w3) \<Rightarrow>
            rc = EOK \<and>
            (case load w3 obj of
               None \<Rightarrow> False
             | Some a \<Rightarrow> chain w3 (pFirst a) [nd] \<and> pLast a = nd \<and> arr_n a = 0 \<and>
                 arr_n a \<noteq> length [nd]))"
  by (simp add: world0_def JSON_Array_def JSON_Object_def JSON_Num_def JSON_Var_def calloc_def
      store_def valid_ptr_def modify_def JSON_ArrayAdd_def JSON_ObjectAdd_def load_def zero_node_def)

section \<open>Sibling lists, appending and indexing\<close>

lemma load_Some_nonnull: "load w p = Some nd \<Longrightarrow> p \<noteq> NULL"
  by (cases "p = NULL") simp_all

lemma chain_NULL [simp]: "chain w NULL ps = (ps = [])"
  by (cases ps) auto

lemma chain_store_other:
  "u \<notin> set ps \<Longrightarrow> chain (store w u nd) p ps = chain w p ps"
proof (induction ps arbitrary: p)
  case Nil
  show ?case by simp
next
  case (Cons x xs)
  then have l: "load (store w u nd) x = load w x" and ih: "\<And>p. chain (store w u nd) p xs = chain w p xs"
    by simp_all
  show ?case
    by (cases "load w x") (simp_all add: l ih)
qed

lemma chain_unique: "chain w p xs \<Longrightarrow> chain w p ys \<Longrightarrow> xs = ys"
proof (induction xs arbitrary: p ys)
  case Nil
  then show ?case by simp
next
  case (Cons x xs)
  then show ?case by (cases ys) (auto split: option.splits)
qed

lemma chain_valid: "chain w p ps \<Longrightarrow> list_all (valid_ptr w) ps"
  by (induction ps arbitrary: p) (auto split: option.splits dest: load_Some_valid)

lemma chain_snoc:
  assumes "chain w p ds" and "ds \<noteq> []" and "distinct ds" and "q \<notin> set ds"
    and "load w q = Some nq" and "pNext nq = NULL" and "load w (last ds) = Some l"
  shows "chain (store w (last ds) (l\<lparr>pNext := q\<rparr>)) p (ds @ [q])"
  using assms
proof (induction ds arbitrary: p)
  case Nil
  then show ?case by simp
next
  case (Cons x xs)
  show ?case
  proof (cases "xs = []")
    case True
    with Cons.prems show ?thesis
      by (auto simp: load_store dest: load_Some_valid load_Some_nonnull)
  next
    case False
    with Cons.prems obtain nx where nx: "load w x = Some nx" and c: "chain w (pNext nx) xs" and px: "p = x" "x \<noteq> NULL"
      by (auto split: option.splits)
    from False Cons.prems have neq: "x \<noteq> last xs" by auto
    have "chain (store w (last xs) (l\<lparr>pNext := q\<rparr>)) (pNext nx) (xs @ [q])"
      using Cons.IH[OF c False] Cons.prems False by simp
    then show ?thesis
      using False nx px neq by (simp add: load_store)
  qed
qed

lemma array_of_fresh:
  "load w arr = Some (zero_node\<lparr>node_name := name, node_type := JSON_ARRAY\<rparr>) \<Longrightarrow> array_of w arr []"
  by (simp add: array_of_def zero_node_def)

text \<open>One append to an array with the children \<open>ds\<close>.\<close>

lemma JSON_ArrayAdd_step:
  assumes inv: "array_of w arr ds" and d: "distinct ds" and a: "arr \<notin> set ds"
    and q: "unlinked w q" "q \<notin> set ds" "q \<noteq> arr"
  shows "\<exists>w'. JSON_ArrayAdd w arr q = Some (EOK, w') \<and> array_of w' arr (ds @ [q]) \<and>
           (\<forall>r. r \<noteq> arr \<and> r \<notin> set ds \<longrightarrow> load w' r = load w r)"
proof -
  from inv obtain a where la: "load w arr = Some a" and ta: "node_type a = JSON_ARRAY"
    and ch: "chain w (pFirst a) ds" and lst: "ds \<noteq> [] \<Longrightarrow> pLast a = last ds"
    by (auto simp: array_of_def split: option.splits if_splits)
  from q(1) obtain nq where nq: "load w q = Some nq" "pNext nq = NULL"
    by (auto simp: unlinked_def split: option.splits)
  have qn: "q \<noteq> NULL" and an: "arr \<noteq> NULL"
    using nq la by (auto dest: load_Some_nonnull)
  have va: "valid_ptr w arr" using la by (rule load_Some_valid)
  show ?thesis
  proof (cases "ds = []")
    case True
    then have pf: "pFirst a = NULL" using ch by simp
    let ?w' = "store w arr (a\<lparr>pFirst := q, pLast := q\<rparr>)"
    have "JSON_ArrayAdd w arr q = Some (EOK, ?w')"
      using la ta pf qn an by (simp add: JSON_ArrayAdd_def)
    moreover have "array_of ?w' arr [q]"
      using va ta q(3) qn nq by (simp add: array_of_def load_store)
    moreover have "\<forall>r. r \<noteq> arr \<and> r \<notin> set ds \<longrightarrow> load ?w' r = load w r"
      by simp
    ultimately show ?thesis using True by simp
  next
    case False
    then have pf: "pFirst a \<noteq> NULL" using ch by (cases ds) auto
    have pl: "pLast a = last ds" using lst False by simp
    have lin: "last ds \<in> set ds" using False by simp
    from chain_valid[OF ch] lin have vl: "valid_ptr w (last ds)"
      by (auto simp: list_all_iff)
    then obtain l where l: "load w (last ds) = Some l"
      using valid_ptr_load by blast
    have ln: "last ds \<noteq> NULL" using vl by (simp add: valid_ptr_def)
    have lneq: "last ds \<noteq> arr" using lin a by auto
    let ?w1 = "store w (last ds) (l\<lparr>pNext := q\<rparr>)"
    let ?w' = "store ?w1 arr (a\<lparr>pLast := q\<rparr>)"
    have la1: "load ?w1 arr = Some a" using la lneq by simp
    have "JSON_ArrayAdd w arr q = Some (EOK, ?w')"
      using la ta pf qn an pl ln l la1 by (simp add: JSON_ArrayAdd_def Let_def)
    moreover have "chain ?w1 (pFirst a) (ds @ [q])"
      using chain_snoc[OF ch False d q(2) nq l] .
    then have "chain ?w' (pFirst a) (ds @ [q])"
      using a q(3) by (simp add: chain_store_other)
    then have "array_of ?w' arr (ds @ [q])"
      using va ta by (simp add: array_of_def load_store)
    moreover have "\<forall>r. r \<noteq> arr \<and> r \<notin> set ds \<longrightarrow> load ?w' r = load w r"
      using lin by (auto simp: load_store)
    ultimately show ?thesis by blast
  qed
qed

lemma unlinked_cong: "load w' r = load w r \<Longrightarrow> unlinked w' r = unlinked w r"
  by (simp add: unlinked_def)

lemma ArrayAdd_all_chain:
  assumes "array_of w arr ds" and "distinct (ds @ ps)" and "arr \<notin> set (ds @ ps)"
    and "list_all (unlinked w) ps"
  shows "\<exists>w'. ArrayAdd_all w arr ps = Some (replicate (length ps) EOK, w') \<and>
           array_of w' arr (ds @ ps)"
  using assms
proof (induction ps arbitrary: w ds)
  case Nil
  then show ?case by simp
next
  case (Cons q qs)
  from Cons.prems have d: "distinct ds" and a: "arr \<notin> set ds"
    and q: "unlinked w q" "q \<notin> set ds" "q \<noteq> arr"
    by auto
  from JSON_ArrayAdd_step[OF Cons.prems(1) d a q]
  obtain w1 where w1: "JSON_ArrayAdd w arr q = Some (EOK, w1)" and inv1: "array_of w1 arr (ds @ [q])"
    and fr: "\<forall>r. r \<noteq> arr \<and> r \<notin> set ds \<longrightarrow> load w1 r = load w r"
    by blast
  have u: "list_all (unlinked w1) qs"
    using Cons.prems fr by (auto simp: list_all_iff unlinked_def)
  have "distinct ((ds @ [q]) @ qs)" "arr \<notin> set ((ds @ [q]) @ qs)"
    using Cons.prems by auto
  from Cons.IH[OF inv1 this u]
  obtain w' where "ArrayAdd_all w1 arr qs = Some (replicate (length qs) EOK, w')"
    and "array_of w' arr ((ds @ [q]) @ qs)"
    by blast
  then show ?case using w1 by simp
qed

lemma index_loop_chain:
  "chain w p ps \<Longrightarrow> index_loop w (n + i) p n = Some (if i < length ps then ps ! i else NULL)"
proof (induction ps arbitrary: p n i)
  case Nil
  then show ?case by (subst index_loop.simps) simp
next
  case (Cons x xs)
  then obtain nx where nx: "load w x = Some nx" and c: "chain w (pNext nx) xs" and px: "p = x" "x \<noteq> NULL"
    by (auto split: option.splits)
  show ?case
  proof (cases i)
    case 0
    then show ?thesis using px by (subst index_loop.simps) simp
  next
    case (Suc j)
    have "index_loop w (n + i) p n = index_loop w (Suc n + j) (pNext nx) (n + 1)"
      using px nx Suc by (subst index_loop.simps) simp
    then show ?thesis
      using Cons.IH[OF c, of "Suc n" j] Suc by simp
  qed
qed

lemma JSON_Index_array_of:
  assumes "array_of w arr ps"
  shows "JSON_Index w arr i = Some (if i < length ps then ps ! i else NULL)"
proof -
  from assms obtain a where la: "load w arr = Some a" and ta: "node_type a = JSON_ARRAY"
    and ch: "chain w (pFirst a) ps"
    by (auto simp: array_of_def split: option.splits)
  have "arr \<noteq> NULL" using la by (rule load_Some_nonnull)
  then show ?thesis
    using la ta index_loop_chain[OF ch, of 0 i] by (simp add: JSON_Index_def)
qed

lemma JSON_Num_ok:
  "0 < avail w \<Longrightarrow> JSON_Num w name num =
     (Suc (length (heap w)),
      new_cell w (zero_node\<lparr>node_name := name, node_type := JSON_VAR, var_type := JVARTYPE_UINT32,
         var_len := 4, var_val := Val_ul num\<rparr>))"
  by (simp add: JSON_Num_def JSON_Var_ok modify_new_cell)

lemma JSON_Array_ok:
  "0 < avail w \<Longrightarrow> JSON_Array w name =
     (Suc (length (heap w)), new_cell w (zero_node\<lparr>node_name := name, node_type := JSON_ARRAY\<rparr>))"
  by (simp add: JSON_Array_def calloc_def store_def new_cell_def valid_ptr_def)

lemma JSON_Object_ok:
  "0 < avail w \<Longrightarrow> JSON_Object w name =
     (Suc (length (heap w)), new_cell w (zero_node\<lparr>node_name := name, node_type := JSON_OBJECT\<rparr>))"
  by (simp add: JSON_Object_def calloc_def store_def new_cell_def valid_ptr_def)

lemma world_arr3_built:
  "(case JSON_Array world0 None of (arr, w1) \<Rightarrow>
      case JSON_Num w1 None 10 of (a, w2) \<Rightarrow>
        case JSON_Num w2 None 20 of (b, w3) \<Rightarrow>
          case JSON_Num w3 None 30 of (c, w4) \<Rightarrow> (arr, a, b, c, w4)) = (1, 2, 3, 4, world_arr3)"
  by (simp add: JSON_Array_ok JSON_Num_ok world0_def new_cell_def world_arr3_def)

text \<open>
  Claim C9. Let an array be as \<open>JSON_Array\<close> creates it, and let \<open>ps\<close> be distinct nodes other
  than the array, each allocated and in no list. Appending them with \<open>JSON_ArrayAdd\<close> in
  order succeeds each time, and afterwards \<open>JSON_Index\<close> returns the \<open>i\<close>-th appended node for
  every \<open>i\<close> below their number, and the null pointer at the index one past the last.
  \<open>JSON_Index\<close> also returns the null pointer for a null array pointer and for a node whose
  kind is not \<open>JSON_ARRAY\<close>.
\<close>

theorem JSON_Index_after_appends:
  "(load w arr = Some (zero_node\<lparr>node_name := name, node_type := JSON_ARRAY\<rparr>) \<and>
    distinct ps \<and> arr \<notin> set ps \<and> list_all (unlinked w) ps \<longrightarrow>
      (case ArrayAdd_all w arr ps of
         None \<Rightarrow> False
       | Some (rcs, w') \<Rightarrow>
           rcs = replicate (length ps) EOK \<and>
           (\<forall>i<length ps. JSON_Index w' arr i = Some (ps ! i)) \<and>
           JSON_Index w' arr (length ps) = Some NULL)) \<and>
   JSON_Index w NULL i = Some NULL \<and>
   (\<forall>nd. load w p = Some nd \<and> node_type nd \<noteq> JSON_ARRAY \<longrightarrow> JSON_Index w p i = Some NULL)"
proof (intro conjI impI allI)
  assume a: "load w arr = Some (zero_node\<lparr>node_name := name, node_type := JSON_ARRAY\<rparr>) \<and>
    distinct ps \<and> arr \<notin> set ps \<and> list_all (unlinked w) ps"
  then have "array_of w arr []"
    using array_of_fresh by blast
  with a obtain w' where w': "ArrayAdd_all w arr ps = Some (replicate (length ps) EOK, w')"
    and inv: "array_of w' arr ps"
    using ArrayAdd_all_chain[of w arr "[]" ps] by auto
  show "case ArrayAdd_all w arr ps of
         None \<Rightarrow> False
       | Some (rcs, w') \<Rightarrow>
           rcs = replicate (length ps) EOK \<and>
           (\<forall>i<length ps. JSON_Index w' arr i = Some (ps ! i)) \<and>
           JSON_Index w' arr (length ps) = Some NULL"
    using w' by (simp add: JSON_Index_array_of[OF inv])
next
  show "JSON_Index w NULL i = Some NULL"
    by (simp add: JSON_Index_def)
next
  fix nd
  assume "load w p = Some nd \<and> node_type nd \<noteq> JSON_ARRAY"
  then show "JSON_Index w p i = Some NULL"
    by (simp add: JSON_Index_def)
qed

text \<open>
  An instance: the array and the three numbers of \<open>world_arr3\<close>, which \<open>JSON_Array\<close> and
  \<open>JSON_Num\<close> build (lemma \<open>world_arr3_built\<close>).
\<close>

theorem JSON_Index_after_appends_witness:
  "load world_arr3 1 = Some (zero_node\<lparr>node_name := None, node_type := JSON_ARRAY\<rparr>) \<and>
   distinct [2, 3, 4 :: ptr] \<and> 1 \<notin> set [2, 3, 4 :: ptr] \<and> list_all (unlinked world_arr3) [2, 3, 4] \<and>
   (case ArrayAdd_all world_arr3 1 [2, 3, 4] of
      None \<Rightarrow> False
    | Some (rcs, w') \<Rightarrow>
        rcs = [EOK, EOK, EOK] \<and>
        JSON_Index w' 1 0 = Some 2 \<and> JSON_Index w' 1 1 = Some 3 \<and>
        JSON_Index w' 1 2 = Some 4 \<and> JSON_Index w' 1 3 = Some NULL) \<and>
   JSON_Index world_arr3 NULL 0 = Some NULL \<and> JSON_Index world_arr3 2 0 = Some NULL"
proof -
  have l: "load world_arr3 1 = Some (zero_node\<lparr>node_name := None, node_type := JSON_ARRAY\<rparr>)"
    by (simp add: world_arr3_def load_def valid_ptr_def)
  have u: "list_all (unlinked world_arr3) [2, 3, 4]"
    by (simp add: world_arr3_def unlinked_def load_def valid_ptr_def zero_node_def)
  have d: "distinct [2, 3, 4 :: ptr]" "1 \<notin> set [2, 3, 4 :: ptr]"
    by simp_all
  have v: "\<exists>nd. load world_arr3 2 = Some nd \<and> node_type nd \<noteq> JSON_ARRAY"
    by (simp add: world_arr3_def load_def valid_ptr_def zero_node_def)
  note t = JSON_Index_after_appends[of world_arr3 1 None "[2, 3, 4]" 0 2]
  from t l u d have
    h: "(case ArrayAdd_all world_arr3 1 [2, 3, 4] of
         None \<Rightarrow> False
       | Some (rcs, w') \<Rightarrow>
           rcs = replicate (length [2, 3, 4 :: ptr]) EOK \<and>
           (\<forall>i<length [2, 3, 4 :: ptr]. JSON_Index w' 1 i = Some ([2, 3, 4] ! i)) \<and>
           JSON_Index w' 1 (length [2, 3, 4 :: ptr]) = Some NULL)"
    by blast
  from t v have n: "JSON_Index world_arr3 NULL 0 = Some NULL" "JSON_Index world_arr3 2 0 = Some NULL"
    by blast+
  from h obtain rcs w' where r: "ArrayAdd_all world_arr3 1 [2, 3, 4] = Some (rcs, w')"
    and rc: "rcs = replicate (length [2, 3, 4 :: ptr]) EOK"
    and i: "\<forall>i<length [2, 3, 4 :: ptr]. JSON_Index w' 1 i = Some ([2, 3, 4] ! i)"
    and e: "JSON_Index w' 1 (length [2, 3, 4 :: ptr]) = Some NULL"
    by (cases "ArrayAdd_all world_arr3 1 [2, 3, 4]") auto
  have "JSON_Index w' 1 0 = Some 2" "JSON_Index w' 1 1 = Some 3" "JSON_Index w' 1 2 = Some 4"
    using i by simp_all
  moreover have "rcs = [EOK, EOK, EOK]"
    using rc by (simp add: numeral_3_eq_3)
  moreover have "JSON_Index w' 1 3 = Some NULL"
    using e by (simp add: numeral_3_eq_3)
  ultimately show ?thesis
    using l u d n by (simp only: r option.case prod.case simp_thms)
qed

section \<open>Iteration\<close>

lemma iterate_loop_chain:
  "chain w p ps \<Longrightarrow>
   iterate_loop w fn arg p result s =
     Some (let fs = filter (\<lambda>rc. rc \<noteq> EOK) (fst (apply_calls fn arg ps s))
           in if fs = [] then result else last fs,
           snd (apply_calls fn arg ps s))"
proof (induction ps arbitrary: p result s)
  case Nil
  then show ?case by (subst iterate_loop.simps) simp
next
  case (Cons x xs)
  then obtain nx where nx: "load w x = Some nx" and c: "chain w (pNext nx) xs" and px: "p = x" "x \<noteq> NULL"
    by (auto split: option.splits)
  obtain rc s1 where f: "fn x arg s = (rc, s1)"
    by (cases "fn x arg s")
  obtain rcs s2 where a: "apply_calls fn arg xs s1 = (rcs, s2)"
    by (cases "apply_calls fn arg xs s1")
  have "iterate_loop w fn arg p result s =
          iterate_loop w fn arg (pNext nx) (if rc \<noteq> EOK then rc else result) s1"
    using px nx f by (subst iterate_loop.simps) simp
  also have "\<dots> = Some (let fs = filter (\<lambda>rc. rc \<noteq> EOK) rcs
           in if fs = [] then (if rc \<noteq> EOK then rc else result) else last fs, s2)"
    using Cons.IH[OF c, of "if rc \<noteq> EOK then rc else result" s1] a by simp
  finally show ?case
    using f a by (simp add: Let_def)
qed

text \<open>
  Claim C7. \<open>JSON_Iterate\<close> returns \<open>EINVAL\<close> when the array pointer or the function pointer
  is null and \<open>ENOTSUP\<close> when the node is not of kind \<open>JSON_ARRAY\<close>, in both cases without a
  call. For an array whose children are the list \<open>ps\<close>, it calls the function once for each
  child, in the order of the list and whatever the calls return (the final state is that of
  \<open>apply_calls\<close> on \<open>ps\<close>), and returns the last code other than \<open>EOK\<close> among the codes
  returned, or \<open>EOK\<close> when there is none, as for an empty array.
\<close>

theorem JSON_Iterate_spec:
  "(pArray = NULL \<or> fn = None \<longrightarrow> JSON_Iterate w pArray fn arg s = Some (EINVAL, s)) \<and>
   (\<forall>a. load w pArray = Some a \<and> node_type a \<noteq> JSON_ARRAY \<and> fn \<noteq> None \<longrightarrow>
      JSON_Iterate w pArray fn arg s = Some (ENOTSUP, s)) \<and>
   (\<forall>a f ps. load w pArray = Some a \<and> node_type a = JSON_ARRAY \<and> chain w (pFirst a) ps \<and>
        fn = Some f \<longrightarrow>
      JSON_Iterate w pArray fn arg s =
        Some (last_failure (fst (apply_calls f arg ps s)), snd (apply_calls f arg ps s)))"
proof (intro conjI impI allI)
  assume "pArray = NULL \<or> fn = None"
  then show "JSON_Iterate w pArray fn arg s = Some (EINVAL, s)"
    by (auto simp: JSON_Iterate_def)
next
  fix a
  assume "load w pArray = Some a \<and> node_type a \<noteq> JSON_ARRAY \<and> fn \<noteq> None"
  then show "JSON_Iterate w pArray fn arg s = Some (ENOTSUP, s)"
    by (auto simp: JSON_Iterate_def dest: load_Some_nonnull)
next
  fix a f ps
  assume h: "load w pArray = Some a \<and> node_type a = JSON_ARRAY \<and> chain w (pFirst a) ps \<and> fn = Some f"
  then have "pArray \<noteq> NULL"
    by (auto dest: load_Some_nonnull)
  then show "JSON_Iterate w pArray fn arg s =
        Some (last_failure (fst (apply_calls f arg ps s)), snd (apply_calls f arg ps s))"
    using h iterate_loop_chain[of w "pFirst a" ps f arg EOK s]
    by (simp add: JSON_Iterate_def last_failure_def)
qed

lemma world_arr3_linked_built:
  "ArrayAdd_all world_arr3 1 [2, 3, 4] = Some ([EOK, EOK, EOK], world_arr3_linked)"
  by (simp add: world_arr3_def world_arr3_linked_def JSON_ArrayAdd_def load_def valid_ptr_def
      store_def zero_node_def)

text \<open>
  An instance: the array of \<open>world_arr3_linked\<close> with the children 2, 3 and 4 in the order
  of their insertion (lemma \<open>world_arr3_linked_built\<close>) and the callback \<open>log_call\<close>, which
  fails on the first two children: all three are visited and the code of the second is
  returned. The array of \<open>world_arr3\<close> is empty.
\<close>

theorem JSON_Iterate_spec_witness:
  "JSON_Iterate world_arr3_linked NULL (Some log_call) () [] = Some (EINVAL, []) \<and>
   JSON_Iterate world_arr3_linked 1 (None :: (ptr \<Rightarrow> unit \<Rightarrow> ptr list \<Rightarrow> int \<times> ptr list) option) () []
     = Some (EINVAL, []) \<and>
   map_option node_type (load world_arr3_linked 2) = Some JSON_VAR \<and>
   JSON_Iterate world_arr3_linked 2 (Some log_call) () [] = Some (ENOTSUP, []) \<and>
   map_option node_type (load world_arr3_linked 1) = Some JSON_ARRAY \<and>
   chain world_arr3_linked 2 [2, 3, 4] \<and>
   JSON_Iterate world_arr3_linked 1 (Some log_call) () [] = Some (5, [2, 3, 4]) \<and>
   JSON_Iterate world_arr3 1 (Some log_call) () [] = Some (EOK, [])"
proof -
  have l1: "load world_arr3_linked 1 =
      Some (zero_node\<lparr>node_name := None, node_type := JSON_ARRAY, pFirst := 2, pLast := 4\<rparr>)"
    by (simp add: world_arr3_linked_def load_def valid_ptr_def)
  have l2: "load world_arr3_linked 2 =
      Some (zero_node\<lparr>node_name := None, node_type := JSON_VAR, pNext := 3,
            var_type := JVARTYPE_UINT32, var_len := 4, var_val := Val_ul 10\<rparr>)"
    by (simp add: world_arr3_linked_def load_def valid_ptr_def)
  have c: "chain world_arr3_linked 2 [2, 3, 4]"
    by (simp add: world_arr3_linked_def load_def valid_ptr_def zero_node_def)
  have l0: "load world_arr3 1 = Some (zero_node\<lparr>node_name := None, node_type := JSON_ARRAY\<rparr>)"
    by (simp add: world_arr3_def load_def valid_ptr_def)
  have a: "apply_calls log_call () [2, 3, 4] [] = ([7, 5, EOK], [2, 3, 4])"
    by (simp add: log_call_def)
  have f: "last_failure [7, 5, EOK] = 5" "last_failure [] = EOK"
    by (simp_all add: last_failure_def EOK_def)
  have "JSON_Iterate world_arr3_linked NULL (Some log_call) () [] = Some (EINVAL, [])"
    using JSON_Iterate_spec[of NULL "Some log_call" world_arr3_linked "()" "[]"] by simp
  moreover have "JSON_Iterate world_arr3_linked 1
      (None :: (ptr \<Rightarrow> unit \<Rightarrow> ptr list \<Rightarrow> int \<times> ptr list) option) () [] = Some (EINVAL, [])"
    using JSON_Iterate_spec[of 1 None world_arr3_linked "()" "[]"] by simp
  moreover have "JSON_Iterate world_arr3_linked 2 (Some log_call) () [] = Some (ENOTSUP, [])"
    using JSON_Iterate_spec[of 2 "Some log_call" world_arr3_linked "()" "[]"] l2
    by (simp add: zero_node_def)
  moreover have "JSON_Iterate world_arr3_linked 1 (Some log_call) () [] = Some (5, [2, 3, 4])"
  proof -
    let ?A = "zero_node\<lparr>node_name := None, node_type := JSON_ARRAY, pFirst := 2, pLast := 4\<rparr> :: unit jnode"
    have "load world_arr3_linked 1 = Some ?A \<and> node_type ?A = JSON_ARRAY \<and>
        chain world_arr3_linked (pFirst ?A) [2, 3, 4] \<and> Some log_call = Some log_call"
      using l1 c by simp
    then have "JSON_Iterate world_arr3_linked 1 (Some log_call) () [] =
        Some (last_failure (fst (apply_calls log_call () [2, 3, 4] [])),
              snd (apply_calls log_call () [2, 3, 4] []))"
      using JSON_Iterate_spec[of 1 "Some log_call" world_arr3_linked "()" "[]"] by blast
    then show ?thesis
      by (simp only: a f fst_conv snd_conv)
  qed
  moreover have "JSON_Iterate world_arr3 1 (Some log_call) () [] = Some (EOK, [])"
  proof -
    let ?A = "zero_node\<lparr>node_name := None, node_type := JSON_ARRAY\<rparr> :: unit jnode"
    have "load world_arr3 1 = Some ?A \<and> node_type ?A = JSON_ARRAY \<and>
        chain world_arr3 (pFirst ?A) [] \<and> Some log_call = Some log_call"
      using l0 by (simp add: zero_node_def)
    then have "JSON_Iterate world_arr3 1 (Some log_call) () [] =
        Some (last_failure (fst (apply_calls log_call () [] [])),
              snd (apply_calls log_call () [] []))"
      using JSON_Iterate_spec[of 1 "Some log_call" world_arr3 "()" "[]"] by blast
    then show ?thesis
      by (simp add: f)
  qed
  ultimately show ?thesis
    using l1 l2 c by (simp add: zero_node_def)
qed

section \<open>String unescaping\<close>

lemma unescape_Cons:
  "unescape (c # cs) =
     (if c = backslash then (case cs of [] \<Rightarrow> [] | e # r \<Rightarrow> escape e # unescape r)
      else c # unescape cs)"
  by (cases cs) simp_all

lemma charstr_loop_unescape:
  "charstr_loop cs 0 out = out @ unescape cs \<and>
   charstr_loop cs (Suc 0) out = (case cs of [] \<Rightarrow> out | e # r \<Rightarrow> out @ escape e # unescape r)"
proof (induction cs arbitrary: out)
  case Nil
  show ?case by simp
next
  case (Cons c cs)
  have d: "(case cs of [] \<Rightarrow> out | e # r \<Rightarrow> out @ escape e # unescape r) =
           out @ (case cs of [] \<Rightarrow> [] | e # r \<Rightarrow> escape e # unescape r)"
    by (cases cs) simp_all
  show ?case
    by (simp add: Cons.IH unescape_Cons d del: unescape.simps)
qed

lemma c_str_no_NUL: "NUL \<notin> set s \<Longrightarrow> c_str s = s"
  by (induction s) (auto simp: c_str_def)

lemma get_charstr_quoted:
  assumes "NUL \<notin> set body" and "0 < avail w"
  shows "get_charstr w (Some (dquote # body @ [dquote])) =
           Some (Some (unescape body), w\<lparr>avail := avail w - 1\<rparr>)"
proof -
  have "NUL \<notin> set (dquote # body @ [dquote])"
    using assms(1) by (simp add: dquote_def NUL_def)
  then have c: "c_str (dquote # body @ [dquote]) = dquote # body @ [dquote]"
    by (rule c_str_no_NUL)
  have c2: "c_str (body @ [dquote]) = body @ [dquote]"
    using assms(1) by (intro c_str_no_NUL) (simp add: dquote_def NUL_def)
  show ?thesis
    using assms(2) by (simp add: get_charstr_def c c2 strdup_def charstr_loop_unescape)
qed

text \<open>
  Claim C8. For every quoted-string token, that is a text between two quote characters (a C
  string, without NUL), \<open>get_charstr\<close> with memory for the copy returns the unescaping of
  the text between the quotes: the scan from left to right in which a backslash takes the
  following character and maps it by the table (backslash, \<open>0\<close> to NUL, \<open>r\<close> to carriage return,
  \<open>n\<close> to line feed, \<open>t\<close> to tab, apostrophe, quote, any other character unchanged) and every
  other character is copied.
\<close>

theorem get_charstr_unescapes:
  "(NUL \<notin> set body \<and> 0 < avail w \<longrightarrow>
      get_charstr w (Some (dquote # body @ [dquote])) =
        Some (Some (unescape body), w\<lparr>avail := avail w - 1\<rparr>)) \<and>
   escape backslash = backslash \<and> escape CHR ''0'' = NUL \<and> escape CHR ''r'' = CHR 0x0D \<and>
   escape CHR ''n'' = newline \<and> escape CHR ''t'' = tab \<and> escape CHR 0x27 = CHR 0x27 \<and>
   escape dquote = dquote \<and>
   (c \<noteq> backslash \<and> c \<noteq> CHR ''0'' \<and> c \<noteq> CHR ''r'' \<and> c \<noteq> CHR ''n'' \<and> c \<noteq> CHR ''t'' \<longrightarrow>
      escape c = c)"
proof (intro conjI impI)
  assume "NUL \<notin> set body \<and> 0 < avail w"
  then show "get_charstr w (Some (dquote # body @ [dquote])) =
        Some (Some (unescape body), w\<lparr>avail := avail w - 1\<rparr>)"
    by (simp add: get_charstr_quoted)
qed (simp_all add: escape_def backslash_def dquote_def NUL_def newline_def tab_def)

theorem get_charstr_unescapes_witness:
  "NUL \<notin> set escape_example \<and> 0 < avail world0 \<and>
   get_charstr world0 (Some (dquote # escape_example @ [dquote])) =
     Some (Some [CHR ''a'', newline, CHR ''b'', tab, CHR ''c''], world0\<lparr>avail := avail world0 - 1\<rparr>) \<and>
   length [CHR ''a'', newline, CHR ''b'', tab, CHR ''c''] = 5 \<and>
   match_charstr (dquote # escape_example @ [dquote]) = length (dquote # escape_example @ [dquote])"
proof -
  have n: "NUL \<notin> set escape_example \<and> 0 < avail world0"
    by (simp add: escape_example_def NUL_def backslash_def world0_def)
  have u: "unescape escape_example = [CHR ''a'', newline, CHR ''b'', tab, CHR ''c'']"
    by (simp add: escape_example_def backslash_def escape_def newline_def tab_def)
  have m: "match_charstr (dquote # escape_example @ [dquote]) = length (dquote # escape_example @ [dquote])"
    by (simp add: match_charstr_def escape_example_def backslash_def dquote_def newline_def)
  show ?thesis
    using get_charstr_unescapes[of escape_example world0] n u m by simp
qed

section \<open>The entry points after a syntax error\<close>

lemma lex_partial:
  "yylex_all ''[[1]'' = [(LBRACKET, ''[''), (LBRACKET, ''[''), (NUM, ''1''), (RBRACKET, '']'')]"
proof -
  have n1: "\<And>s. follows (\<lambda>c. \<not> is_digit c \<and> c \<noteq> CHR ''.'') s \<Longrightarrow>
      yylex_all (CHR ''1'' # s) = (NUM, ''1'') # yylex_all s"
    using lex_NUM[of "''1''"] by (simp add: is_num_text_def is_digit_def is_nzdigit_def)
  show ?thesis
    by (simp add: n1 lex_LBRACKET lex_RBRACKET follows_def is_digit_def yylex_all.simps(1))
qed

lemma yyparse_partial:
  "yyparse (\<lambda>_. ()) world0 (yylex_all ''[[1]'') = Some (1, world_partial)"
  unfolding lex_partial
  by (simp add: world0_def world_partial_def parse_eval_defs)

text \<open>
  Claim C10. Whenever the parser returns a code other than 0, \<open>JSON_ProcessBuffer\<close> returns
  the null pointer, while \<open>JSON_Process\<close> returns the value of \<^verbatim>\<open>root\<close> whatever the code is.
  For the file content \<^verbatim>\<open>[[1]\<close>, which fails to parse (the code is 1), \<open>JSON_Process\<close> returns
  the non-null pointer to the inner array, built before the error.
\<close>

theorem syntax_error_results:
  "(\<forall>rc w1. yyparse atof w (yylex_all (c_str b)) = Some (rc, w1) \<and> rc \<noteq> 0 \<longrightarrow>
      JSON_ProcessBuffer atof w (Some b) = Some (NULL, w1)) \<and>
   (\<forall>rc w1. fopen_r name = Some content \<and> yyparse atof w (yylex_all content) = Some (rc, w1) \<longrightarrow>
      JSON_Process atof fopen_r w (Some name) = Some (root w1, w1)) \<and>
   yyparse (\<lambda>_. ()) world0 (yylex_all ''[[1]'') = Some (1, world_partial) \<and>
   JSON_Process (\<lambda>_. ()) (\<lambda>_. Some ''[[1]'') world0 (Some ''in.json'') = Some (2, world_partial)"
  by (simp add: JSON_ProcessBuffer_def JSON_Process_def yyparse_partial world_partial_def)

theorem syntax_error_results_witness:
  "yyparse (\<lambda>_. ()) world0 (yylex_all (c_str ''[[1]'')) = Some (1, world_partial) \<and>
   JSON_ProcessBuffer (\<lambda>_. ()) world0 (Some ''[[1]'') = Some (NULL, world_partial) \<and>
   JSON_Process (\<lambda>_. ()) (\<lambda>_. Some ''[[1]'') world0 (Some ''in.json'') = Some (2, world_partial) \<and>
   root world_partial = 2"
proof -
  have c: "c_str ''[[1]'' = ''[[1]''"
    by (simp add: c_str_def NUL_def)
  have y: "yyparse (\<lambda>_. ()) world0 (yylex_all (c_str ''[[1]'')) = Some (1, world_partial)"
    by (simp only: c yyparse_partial)
  note t = syntax_error_results[of "\<lambda>_. ()" world0 "''[[1]''" "\<lambda>_. Some ''[[1]''" "''in.json''" "''[[1]''"]
  have "JSON_ProcessBuffer (\<lambda>_. ()) world0 (Some ''[[1]'') = Some (NULL, world_partial)"
    using t y by auto
  moreover have "JSON_Process (\<lambda>_. ()) (\<lambda>_. Some ''[[1]'') world0 (Some ''in.json'') = Some (root world_partial, world_partial)"
    using t yyparse_partial by blast
  moreover have "root world_partial = 2"
    by (simp add: world_partial_def)
  ultimately show ?thesis
    using y by simp
qed

section \<open>The printer on a tree\<close>

lemma uint_of_nat16: "n < 65536 \<Longrightarrow> uint (of_nat n :: 16 word) = int n"
  by (simp add: uint_nat unat_of_nat take_bit_nat_eq_self)

lemma unat_of_nat16: "n < 65536 \<Longrightarrow> unat (of_nat n :: 16 word) = n"
  by (simp add: unat_of_nat take_bit_nat_eq_self)

lemma sint_of_nat32: "n < 2147483648 \<Longrightarrow> sint (of_nat n :: 32 word) = int n"
proof -
  assume a: "n < 2147483648"
  then have u: "uint (of_nat n :: 32 word) = int n"
    by (simp add: uint_nat unat_of_nat take_bit_nat_eq_self)
  have "sint (of_nat n :: 32 word) = signed_take_bit 31 (uint (of_nat n :: 32 word))"
    by (simp add: sint_uint)
  also have "\<dots> = int n"
    unfolding u using a by (intro signed_take_bit_int_eq_self) simp_all
  finally show ?thesis .
qed

lemma show_int_nat: "show_int (int n) = show_nat n"
  by (simp add: show_int_def)

lemma print_rec_step:
  "load w p = Some nd \<Longrightarrow>
   print_rec fmt w False p comma =
     (let pre = (if comma then '','' else []) @ render_name (node_name nd)
      in case node_type nd of
           JSON_ARRAY \<Rightarrow>
             do { body \<leftarrow> print_rec fmt w True (pFirst nd) False; Some (pre @ ''['' @ body @ '']'') }
         | JSON_OBJECT \<Rightarrow>
             do { body \<leftarrow> print_rec fmt w True (pFirst nd) False; Some (pre @ ''{'' @ body @ ''}'') }
         | JSON_BOOL \<Rightarrow> do { v \<leftarrow> json_PrintValue fmt nd; Some (pre @ v) }
         | JSON_VAR \<Rightarrow> do { v \<leftarrow> json_PrintValue fmt nd; Some (pre @ v) }
         | JSON_INVALID \<Rightarrow> Some pre)"
  by (subst print_rec.simps) (auto simp: render_name_def dest: load_Some_nonnull split: option.splits)

lemma print_rec_loop_step:
  "load w p = Some nd \<Longrightarrow>
   print_rec fmt w True p comma =
     do { out1 \<leftarrow> print_rec fmt w False p comma;
          out2 \<leftarrow> print_rec fmt w True (pNext nd) True;
          Some (out1 @ out2) }"
  by (subst print_rec.simps) (auto dest: load_Some_nonnull)

lemma print_rec_NULL: "print_rec fmt w in_loop NULL comma = Some []"
  by (subst print_rec.simps) simp

lemma print_rec_repr:
  fixes b :: "'f jbody" and l :: "'f jlist"
  shows "repr w p b \<Longrightarrow> load w p = Some nd \<Longrightarrow>
           print_rec fmt w False p comma =
             Some ((if comma then '','' else []) @ render_name (node_name nd) @ render_body fmt b)"
    and "repr_list w q l \<Longrightarrow> print_rec fmt w True q comma = Some (render_list fmt comma l)"
proof (induction b and l arbitrary: p nd comma and q comma)
  case (BBool x)
  then show ?case
    by (simp add: print_rec_step json_PrintValue_def get_ui_def)
next
  case (BStr x)
  then show ?case
    by (simp add: print_rec_step json_PrintValue_def get_str_def)
next
  case (BNum x)
  then show ?case
    by (auto simp: print_rec_step json_PrintValue_def get_ui_def get_ul_def uint_of_nat16
        sint_of_nat32 show_int_nat split: if_splits)
next
  case (BFloat x)
  then show ?case
    by (simp add: print_rec_step json_PrintValue_def get_f_def)
next
  case (BArr x)
  then show ?case
    by (simp add: print_rec_step)
next
  case (BObj x)
  then show ?case
    by (simp add: print_rec_step)
next
  case LNil
  then show ?case
    by (simp add: print_rec_NULL)
next
  case (LCons nm b l)
  from LCons.prems obtain nd where nd: "load w q = Some nd" "node_name nd = nm"
    and rb: "repr w q b" and rl: "repr_list w (pNext nd) l"
    by (auto split: option.splits)
  show ?case
    using LCons.IH(1)[OF rb nd(1), of comma] LCons.IH(2)[OF rl, of True] nd
    by (simp add: print_rec_loop_step)
qed

section \<open>The scanner on the text of a tree\<close>

lemma digit_char_digit: "d < 10 \<Longrightarrow> is_digit (digit_char d)"
  by (simp add: is_digit_def digit_char_def of_char_of)

lemma digit_val_digit_char: "d < 10 \<Longrightarrow> digit_val (digit_char d) = d"
  by (simp add: digit_val_def digit_char_def of_char_of)

lemma digit_char_nz: "0 < d \<Longrightarrow> d < 10 \<Longrightarrow> is_nzdigit (digit_char d)"
  using digit_char_digit[of d]
  by (auto simp: is_nzdigit_def digit_char_def char_of_eq_iff take_bit_nat_eq_self)

lemma digit_char_0: "digit_char 0 = CHR ''0''"
  by (simp add: digit_char_def char_of_eq_iff)

lemma show_nat_digits: "list_all is_digit (show_nat n)"
proof (induction n rule: show_nat.induct)
  case (1 n)
  show ?case
  proof (cases "n < 10")
    case True
    then show ?thesis by (subst show_nat.simps) (simp add: digit_char_digit)
  next
    case False
    then show ?thesis using 1 by (subst show_nat.simps) (simp add: digit_char_digit)
  qed
qed

lemma show_nat_nonempty: "show_nat n \<noteq> []"
  by (subst show_nat.simps) simp

lemma show_nat_hd: "0 < n \<Longrightarrow> is_nzdigit (hd (show_nat n))"
proof (induction n rule: show_nat.induct)
  case (1 n)
  show ?case
  proof (cases "n < 10")
    case True
    then show ?thesis using 1(2) by (subst show_nat.simps) (simp add: digit_char_nz)
  next
    case False
    then have "0 < n div 10" by simp
    then have "is_nzdigit (hd (show_nat (n div 10)))" using 1(1) False by simp
    then show ?thesis using False show_nat_nonempty[of "n div 10"]
      by (subst show_nat.simps) simp
  qed
qed

lemma show_nat_0: "show_nat 0 = ''0''"
  by (subst show_nat.simps) (simp add: digit_char_0)

lemma show_nat_num_text: "is_num_text (show_nat n)"
proof (cases "n = 0")
  case True
  then show ?thesis by (simp add: is_num_text_def show_nat_0 is_digit_def)
next
  case False
  then show ?thesis
    by (simp add: is_num_text_def show_nat_nonempty show_nat_digits show_nat_hd)
qed

lemma digits_value_snoc: "digits_value (ds @ [c]) = 10 * digits_value ds + digit_val c"
  by (simp add: digits_value_def)

lemma digits_value_show_nat: "digits_value (show_nat n) = n"
proof (induction n rule: show_nat.induct)
  case (1 n)
  show ?case
  proof (cases "n < 10")
    case True
    then show ?thesis by (subst show_nat.simps) (simp add: digits_value_def digit_val_digit_char)
  next
    case False
    then show ?thesis using 1
      by (subst show_nat.simps) (simp add: digits_value_snoc digit_val_digit_char)
  qed
qed

lemma follows_weaken: "follows P s \<Longrightarrow> (\<And>c. P c \<Longrightarrow> Q c) \<Longrightarrow> follows Q s"
  by (cases s) (simp_all add: follows_def)

lemma value_end_facts:
  assumes "value_end c"
  shows "\<not> is_delim c" "\<not> (is_letter c \<or> is_digit c)" "\<not> is_digit c \<and> c \<noteq> CHR ''.''"
    "\<not> is_digit c \<and> c \<noteq> CHR ''e'' \<and> c \<noteq> CHR ''E''"
  using assms by (auto simp: value_end_def is_delim_def is_letter_def is_digit_def tab_def)

lemma c_str_plain: "list_all plain_char s \<Longrightarrow> c_str s = s"
  by (induction s) (auto simp: c_str_def plain_char_def)

lemma is_float_textD:
  assumes "is_float_text t"
  shows "\<exists>sg d r ds. t = sg @ d # r @ CHR ''.'' # ds \<and> (sg = [] \<or> sg = ''-'') \<and>
           is_digit d \<and> list_all is_digit r \<and> ds \<noteq> [] \<and> list_all is_digit ds"
proof -
  define u where "u = (case t of [] \<Rightarrow> [] | c # r \<Rightarrow> if c = CHR ''-'' then r else t)"
  define i where "i = takeWhile is_digit u"
  from assms obtain ds where i: "i \<noteq> []" and dr: "drop (length i) u = CHR ''.'' # ds"
    and ds: "ds \<noteq> []" "list_all is_digit ds"
    by (auto simp: is_float_text_def Let_def u_def i_def split: list.splits)
  have "take (length i) u = i"
    unfolding i_def by (rule takeWhile_eq_take[symmetric])
  then have u: "u = i @ CHR ''.'' # ds"
    using dr append_take_drop_id[of "length i" u] by simp
  have di: "list_all is_digit i"
    unfolding i_def list_all_iff by (auto dest: set_takeWhileD)
  obtain d r where dr': "i = d # r"
    using i by (cases i) auto
  have t: "t = u \<or> t = CHR ''-'' # u"
    unfolding u_def by (cases t) auto
  show ?thesis
    using t u di ds dr' by (intro exI[of _ "if t = u then [] else ''-''"] exI[of _ d] exI[of _ r] exI[of _ ds]) auto
qed

lemma float_body_text:
  assumes d: "is_digit d" and r: "list_all is_digit r" and ds: "ds \<noteq> []" "list_all is_digit ds"
    and s: "follows (\<lambda>c. \<not> is_digit c \<and> c \<noteq> CHR ''e'' \<and> c \<noteq> CHR ''E'') s"
  shows "float_body (d # r @ CHR ''.'' # ds @ s) = Suc (length r + length ds + 1)"
proof -
  have np: "\<not> is_digit (CHR ''.'')" by (simp add: is_digit_def)
  have 1: "takeWhile is_digit (d # r @ CHR ''.'' # ds @ s) = d # r"
    using d r np by (induction r) simp_all
  have "takeWhile is_digit s = []"
    using s by (cases s) (simp_all add: follows_def)
  then have 2: "takeWhile is_digit (ds @ s) = ds"
    using ds(2) by (induction ds) simp_all
  have 3: "float_exp s = 0"
    using s by (cases s) (simp_all add: follows_def float_exp_def)
  have 4: "drop (length (d # r)) (d # r @ CHR ''.'' # ds @ s) = CHR ''.'' # ds @ s"
    by simp
  show ?thesis
    unfolding float_body_def 1 Let_def 4 using ds(1) by (simp add: 2 3)
qed

lemma num_body_prefix:
  assumes d: "is_digit d" and r: "list_all is_digit r"
  shows "\<exists>k. num_body (d # r @ CHR ''.'' # t) = Suc k \<and> k \<le> length r"
proof (cases "is_nzdigit d")
  case True
  have np: "\<not> is_digit (CHR ''.'')" by (simp add: is_digit_def)
  have "takeWhile is_digit (r @ CHR ''.'' # t) = r"
    using r np by (induction r) simp_all
  then show ?thesis using True by (simp add: num_body_def)
next
  case False
  then show ?thesis using d by (simp add: num_body_def)
qed

lemma best_rule_numeric:
  assumes "\<not> is_delim c" "\<not> is_letter c" "c \<noteq> CHR ''/''" "c \<noteq> newline" "c \<noteq> CHR ''t''"
    "c \<noteq> CHR ''f''" "c \<noteq> CHR ''{''" "c \<noteq> CHR ''}''" "c \<noteq> CHR ''[''" "c \<noteq> CHR '']''"
    "c \<noteq> CHR ''.''" "c \<noteq> CHR '',''" "c \<noteq> CHR '';''" "c \<noteq> CHR '':''" "c \<noteq> dquote"
    and "match_num (c # y) = n" and "match_floatnum (c # y) = m" and "n < m"
  shows "best_rule (rules (c # y)) = (m, m, Return FLOAT)"
proof -
  have "rules (c # y) =
     [(0, 0, Skip), (0, 0, Skip), (0, 0, Skip), (0, 0, Return TRUE), (0, 0, Return FALSE),
      (0, 0, Return LBRACE), (0, 0, Return RBRACE), (0, 0, Return LBRACKET),
      (0, 0, Return RBRACKET), (0, 0, Return DOT), (0, 0, Return COMMA), (0, 0, Return SEMI),
      (0, 0, Return COLON), (0, 0, Return CHARSTR), (0, 0, Return ID),
      (n, n, Return NUM), (m, m, Return FLOAT)]"
    using assms(1-15) unfolding assms(16,17)[symmetric]
    by (simp add: rules_def match_ws_def match_lit_def match_comment_def match_charstr_def
        match_id_def split: list.split)
  then show ?thesis
    using assms(18) by (simp add: best_rule_def)
qed

lemma lex_FLOAT:
  assumes t: "is_float_text t"
    and s: "follows (\<lambda>c. \<not> is_digit c \<and> c \<noteq> CHR ''e'' \<and> c \<noteq> CHR ''E'') s"
  shows "yylex_all (t @ s) = (FLOAT, t) # yylex_all s"
proof -
  from is_float_textD[OF t] obtain sg d r ds
    where tt: "t = sg @ d # r @ CHR ''.'' # ds" and sg: "sg = [] \<or> sg = ''-''"
      and d: "is_digit d" and r: "list_all is_digit r" and ds: "ds \<noteq> []" "list_all is_digit ds"
    by blast
  let ?y = "r @ CHR ''.'' # ds @ s"
  let ?m = "Suc (length r + length ds + 1)"
  have f: "float_body (d # ?y) = ?m"
    using d r ds s by (rule float_body_text)
  from num_body_prefix[OF d r, of "ds @ s"] obtain k
    where n: "num_body (d # ?y) = Suc k" and k: "k \<le> length r"
    by blast
  note sp = digit_not_special[OF d]
  from sg show ?thesis
  proof
    assume e: "sg = []"
    have mn: "match_num (d # ?y) = Suc k"
      using sp(16) n by (simp add: match_num_def)
    have mf: "match_floatnum (d # ?y) = ?m"
      using sp(16,17) f by (simp add: match_floatnum_def)
    have "best_rule (rules (d # ?y)) = (?m, ?m, Return FLOAT)"
      using sp(1-15) mn mf
    proof (rule best_rule_numeric)
      show "Suc k < ?m" using k by simp
    qed
    then have "yylex_all (d # ?y) = (FLOAT, take ?m (d # ?y)) # yylex_all (drop (?m - 1) ?y)"
      by (simp add: yylex_all.simps)
    then show ?thesis
      using tt e by simp
  next
    assume e: "sg = ''-''"
    have mn: "match_num (CHR ''-'' # d # ?y) = Suc (Suc k)"
      using n by (simp add: match_num_def)
    have mf: "match_floatnum (CHR ''-'' # d # ?y) = Suc ?m"
      using f by (simp add: match_floatnum_def)
    have "best_rule (rules (CHR ''-'' # d # ?y)) = (Suc ?m, Suc ?m, Return FLOAT)"
    proof (rule best_rule_numeric[OF _ _ _ _ _ _ _ _ _ _ _ _ _ _ _ mn mf])
      show "Suc (Suc k) < Suc ?m" using k by simp
    qed (simp_all add: is_delim_def is_letter_def newline_def dquote_def tab_def)
    then have "yylex_all (CHR ''-'' # d # ?y) =
        (FLOAT, take (Suc ?m) (CHR ''-'' # d # ?y)) # yylex_all (drop (Suc ?m - 1) (d # ?y))"
      by (simp add: yylex_all.simps)
    then show ?thesis
      using tt e by simp
  qed
qed

lemma float_text_start:
  assumes "is_float_text t"
  shows "follows (\<lambda>c. \<not> is_delim c) (t @ s)" and "NUL \<notin> set t"
proof -
  from is_float_textD[OF assms] obtain sg d r ds
    where tt: "t = sg @ d # r @ CHR ''.'' # ds" and sg: "sg = [] \<or> sg = ''-''"
      and d: "is_digit d" and r: "list_all is_digit r" and ds: "list_all is_digit ds"
    by blast
  have nd: "\<not> is_delim d" using d by (rule digit_not_special(1))
  have nm: "\<not> is_delim (CHR ''-'')" by (simp add: is_delim_def tab_def)
  from sg show "follows (\<lambda>c. \<not> is_delim c) (t @ s)"
  proof
    assume "sg = []"
    then show ?thesis using nd by (simp add: tt follows_def)
  next
    assume "sg = ''-''"
    then show ?thesis using nm by (simp add: tt follows_def)
  qed
  have 1: "NUL \<notin> set r"
    using r is_digit_not_NUL by (auto simp: list_all_iff)
  have 2: "NUL \<notin> set ds"
    using ds is_digit_not_NUL by (auto simp: list_all_iff)
  have 3: "NUL \<notin> set sg"
    using sg by (auto simp: NUL_def)
  have 4: "d \<noteq> NUL"
    using d by (rule is_digit_not_NUL)
  have 5: "CHR ''.'' \<noteq> NUL"
    by (simp add: NUL_def)
  show "NUL \<notin> set t"
    unfolding tt using 1 2 3 4 5 by simp
qed

lemma render_body_start:
  "rt_body fmt_f atof b \<Longrightarrow> follows (\<lambda>c. \<not> is_delim c) (render_body fmt_f b @ s)"
proof (cases b)
  case (BNum n)
  then show ?thesis
    using show_nat_nonempty[of n] show_nat_digits[of n]
    by (cases "show_nat n") (auto simp: follows_def digit_not_special)
next
  case (BFloat x)
  assume "rt_body fmt_f atof b"
  then show ?thesis
    using BFloat float_text_start(1)[of "fmt_f x" s] by simp
qed (simp_all add: follows_def is_delim_def dquote_def tab_def)

lemma render_list_start:
  "follows value_end s \<Longrightarrow> follows value_end (render_list fmt_f True l @ s)"
  by (cases l) (simp_all add: follows_def value_end_def)

lemma lex_name:
  assumes "list_all plain_char k" and "follows (\<lambda>c. \<not> is_delim c) s"
  shows "yylex_all (render_name (Some k) @ s) = toks_name (Some k) @ yylex_all s"
proof -
  have "yylex_all (render_name (Some k) @ s) = yylex_all (dquote # k @ dquote # ('' : '' @ s))"
    using assms(1) by (simp add: render_name_def c_str_plain)
  also have "\<dots> = (CHARSTR, dquote # k @ [dquote]) # yylex_all ('' : '' @ s)"
    using assms(1) by (rule lex_CHARSTR)
  also have "yylex_all ('' : '' @ s) = (COLON, '':'') # yylex_all s"
  proof -
    have "follows (\<lambda>c. \<not> is_delim c) (CHR '':'' # CHR '' '' # s)"
      by (simp add: follows_def is_delim_def tab_def)
    then have "yylex_all ('' : '' @ s) = yylex_all (CHR '':'' # CHR '' '' # s)"
      using lex_space by simp
    also have "\<dots> = (COLON, '':'') # yylex_all (CHR '' '' # s)"
      by (rule lex_COLON)
    also have "yylex_all (CHR '' '' # s) = yylex_all s"
      using assms(2) by (rule lex_space)
    finally show ?thesis .
  qed
  finally show ?thesis by (simp add: toks_name_def)
qed

lemma lex_render:
  fixes b :: "'f jbody" and l :: "'f jlist"
  shows "rt_body fmt_f atof b \<Longrightarrow> follows value_end s \<Longrightarrow>
           yylex_all (render_body fmt_f b @ s) = toks_body fmt_f b @ yylex_all s"
    and "rt_elems fmt_f atof l \<or> rt_members fmt_f atof l \<Longrightarrow> follows value_end t \<Longrightarrow>
           yylex_all (render_list fmt_f c l @ t) = toks_list fmt_f c l @ yylex_all t"
proof (induction b and l arbitrary: s and c t)
  case (BBool x)
  have f1: "follows (\<lambda>c. \<not> (is_letter c \<or> is_digit c)) s"
    using BBool.prems(2) value_end_facts(2) by (rule follows_weaken)
  have f2: "follows (\<lambda>c. \<not> is_delim c) s"
    using BBool.prems(2) value_end_facts(1) by (rule follows_weaken)
  have f3: "follows (\<lambda>c. \<not> (is_letter c \<or> is_digit c)) (CHR '' '' # s)"
    by (simp add: follows_def is_letter_def is_digit_def)
  show ?case
  proof (cases x)
    case True
    then show ?thesis using lex_TRUE[OF f1] by simp
  next
    case False
    then show ?thesis using lex_FALSE[OF f3] lex_space[OF f2] by simp
  qed
next
  case (BStr x)
  then show ?case
    using lex_CHARSTR[of x s] by (simp add: c_str_plain)
next
  case (BNum x)
  have "follows (\<lambda>c. \<not> is_digit c \<and> c \<noteq> CHR ''.'') s"
    using BNum.prems(2) value_end_facts(3) by (rule follows_weaken)
  then show ?case
    using lex_NUM[OF show_nat_num_text] by simp
next
  case (BFloat x)
  have "follows (\<lambda>c. \<not> is_digit c \<and> c \<noteq> CHR ''e'' \<and> c \<noteq> CHR ''E'') s"
    using BFloat.prems(2) value_end_facts(4) by (rule follows_weaken)
  then show ?case
    using BFloat.prems(1) lex_FLOAT[of "fmt_f x" s] by simp
next
  case (BArr x)
  have "follows value_end (CHR '']'' # s)"
    by (simp add: follows_def value_end_def)
  then show ?case
    using BArr.IH[of "CHR '']'' # s" False] BArr.prems
    by (simp add: lex_LBRACKET lex_RBRACKET)
next
  case (BObj x)
  have "follows value_end (CHR ''}'' # s)"
    by (simp add: follows_def value_end_def)
  then show ?case
    using BObj.IH[of "CHR ''}'' # s" False] BObj.prems
    by (simp add: lex_LBRACE lex_RBRACE)
next
  case LNil
  show ?case by simp
next
  case (LCons nm b l)
  have rb: "rt_body fmt_f atof b" and rl: "rt_elems fmt_f atof l \<or> rt_members fmt_f atof l"
    using LCons.prems(1) by auto
  have fl: "follows value_end (render_list fmt_f True l @ t)"
    using LCons.prems(2) by (rule render_list_start)
  have body: "yylex_all (render_body fmt_f b @ render_list fmt_f True l @ t) =
      toks_body fmt_f b @ toks_list fmt_f True l @ yylex_all t"
    using LCons.IH(1)[OF rb fl] LCons.IH(2)[OF rl LCons.prems(2), of True] by simp
  have name: "yylex_all (render_name nm @ render_body fmt_f b @ render_list fmt_f True l @ t) =
      toks_name nm @ toks_body fmt_f b @ toks_list fmt_f True l @ yylex_all t"
  proof (cases nm)
    case None
    then show ?thesis using body by (simp add: render_name_def toks_name_def)
  next
    case (Some k)
    then have k: "list_all plain_char k" using LCons.prems(1) by auto
    show ?thesis
      using lex_name[OF k render_body_start[OF rb], of "render_list fmt_f True l @ t"] body Some
      by simp
  qed
  show ?case
    using name by (cases c) (simp_all add: lex_COMMA)
qed

section \<open>The layout of a parsed tree\<close>

lemma heap_extends_refl [simp]: "heap_extends w w"
  by (simp add: heap_extends_def)

lemma heap_extends_length: "heap_extends w w' \<Longrightarrow> length (heap w) \<le> length (heap w')"
  by (auto simp: heap_extends_def)

lemma heap_extends_load:
  assumes "heap_extends w w'" and "a \<le> length (heap w)"
  shows "load w' a = load w a"
proof -
  from assms(1) obtain cs where cs: "heap w' = heap w @ cs"
    by (auto simp: heap_extends_def)
  show ?thesis
    using assms(2) by (cases "a = NULL") (simp_all add: load_def valid_ptr_def cs nth_append)
qed

lemma heap_extends_trans: "heap_extends w w1 \<Longrightarrow> heap_extends w1 w2 \<Longrightarrow> heap_extends w w2"
  by (auto simp: heap_extends_def)

lemma heap_extends_new_cell: "heap_extends w (new_cell w nd)"
  by (simp add: heap_extends_def new_cell_def)

lemma heap_extends_store:
  assumes "length (heap w) < p" and "heap_extends w w1"
  shows "heap_extends w (store w1 p nd)"
proof -
  from assms(2) obtain cs where cs: "heap w1 = heap w @ cs"
    by (auto simp: heap_extends_def)
  have "\<not> p - 1 < length (heap w)"
    using assms(1) by arith
  then have "(heap w @ cs)[p - 1 := nd] = heap w @ cs[p - 1 - length (heap w) := nd]"
    by (simp add: list_update_append)
  then show ?thesis
    by (simp add: heap_extends_def store_def cs)
qed

lemma heap_extends_avail: "heap_extends w (w\<lparr>avail := n\<rparr>)"
  by (simp add: heap_extends_def)

lemma heap_extends_root: "heap_extends w w1 \<Longrightarrow> heap_extends w (w1\<lparr>root := r\<rparr>)"
  by (simp add: heap_extends_def)

lemma load_root_update [simp]: "load (w\<lparr>root := r\<rparr>) p = load w p"
  by (simp add: load_def valid_ptr_def)

lemma load_avail_update [simp]: "load (w\<lparr>avail := n\<rparr>) p = load w p"
  by (simp add: load_def valid_ptr_def)

lemma prepr_lo: "prepr w lo p b \<Longrightarrow> lo < p"
  by (cases b) simp_all

lemma prepr_list_lo: "prepr_list w lo hi q l \<Longrightarrow> lo < q \<or> l = LNil"
  by (cases l) (auto split: option.splits dest: prepr_lo)

text \<open>The layout predicate looks only at the cells above \<open>lo\<close> and up to the bound.\<close>

lemma prepr_frame:
  fixes b :: "'f jbody" and l :: "'f jlist"
  shows "prepr w lo p b \<Longrightarrow> (\<And>a. lo < a \<Longrightarrow> a \<le> p \<Longrightarrow> load w' a = load w a) \<Longrightarrow> prepr w' lo p b"
    and "prepr_list w lo' hi q l \<Longrightarrow> (\<And>a. lo' < a \<Longrightarrow> a \<le> hi \<Longrightarrow> load w' a = load w a) \<Longrightarrow>
           lo' < q \<or> l = LNil \<Longrightarrow> prepr_list w' lo' hi q l"
proof (induction b and l arbitrary: lo p and lo' hi q)
  case (BBool x)
  then show ?case by simp
next
  case (BStr x)
  then show ?case by simp
next
  case (BNum x)
  then show ?case by simp
next
  case (BFloat x)
  then show ?case by simp
next
  case (BArr x)
  from BArr.prems(1) obtain nd where nd: "lo < p" "load w p = Some nd" "node_type nd = JSON_ARRAY"
    and ch: "prepr_list w lo (p - 1) (pFirst nd) x"
    by (auto split: option.splits)
  have "prepr_list w' lo (p - 1) (pFirst nd) x"
  proof (rule BArr.IH[OF ch])
    fix a assume "lo < a" "a \<le> p - 1"
    then show "load w' a = load w a" using BArr.prems(2)[of a] by simp
  next
    show "lo < pFirst nd \<or> x = LNil"
      using ch by (rule prepr_list_lo)
  qed
  then show ?case
    using nd BArr.prems(2)[of p] by simp
next
  case (BObj x)
  from BObj.prems(1) obtain nd where nd: "lo < p" "load w p = Some nd" "node_type nd = JSON_OBJECT"
    and ch: "prepr_list w lo (p - 1) (pFirst nd) x"
    by (auto split: option.splits)
  have "prepr_list w' lo (p - 1) (pFirst nd) x"
  proof (rule BObj.IH[OF ch])
    fix a assume "lo < a" "a \<le> p - 1"
    then show "load w' a = load w a" using BObj.prems(2)[of a] by simp
  next
    show "lo < pFirst nd \<or> x = LNil"
      using ch by (rule prepr_list_lo)
  qed
  then show ?case
    using nd BObj.prems(2)[of p] by simp
next
  case LNil
  then show ?case by simp
next
  case (LCons nm b l)
  from LCons.prems(1) obtain nd where nd: "q \<le> hi" "load w q = Some nd" "node_name nd = nm"
    and pb: "prepr w lo' q b" and pl: "prepr_list w q hi (pNext nd) l"
    by (auto split: option.splits)
  have lq: "lo' < q" using LCons.prems(3) by simp
  have 1: "prepr w' lo' q b"
    using LCons.IH(1)[OF pb] LCons.prems(2) nd(1) by simp
  have 2: "prepr_list w' q hi (pNext nd) l"
  proof (rule LCons.IH(2)[OF pl])
    fix a assume "q < a" "a \<le> hi"
    then show "load w' a = load w a" using LCons.prems(2)[of a] lq by simp
  next
    show "q < pNext nd \<or> l = LNil"
      using pl by (rule prepr_list_lo)
  qed
  show ?case
    using nd 1 2 LCons.prems(2)[of q] lq by simp
qed

lemma prepr_imp_repr:
  fixes b :: "'f jbody" and l :: "'f jlist"
  shows "prepr w lo p b \<Longrightarrow> repr w p b"
    and "prepr_list w lo' hi q l \<Longrightarrow> repr_list w q l"
  by (induction b and l arbitrary: lo p and lo' hi q) (auto split: option.splits)

lemma prepr_store_root:
  assumes "prepr w lo p b" and "load w p = Some nd"
    and "node_type nd' = node_type nd" and "pFirst nd' = pFirst nd"
    and "var_type nd' = var_type nd" and "var_val nd' = var_val nd"
  shows "prepr (store w p nd') lo p b"
proof -
  have v: "valid_ptr w p" using assms(2) by (rule load_Some_valid)
  have ch: "prepr_list (store w p nd') lo (p - 1) (pFirst nd) l"
    if "prepr_list w lo (p - 1) (pFirst nd) l" for l
    using that
  proof (rule prepr_frame(2))
    fix a assume "lo < a" "a \<le> p - 1"
    then have "a \<noteq> p" using v by (auto simp: valid_ptr_def)
    then show "load (store w p nd') a = load w a" by simp
  next
    show "lo < pFirst nd \<or> l = LNil" using that by (rule prepr_list_lo)
  qed
  show ?thesis
    using assms v ch by (cases b) (auto simp: load_store)
qed

text \<open>The leaves.\<close>

lemma unescape_plain: "list_all plain_char k \<Longrightarrow> unescape k = k"
proof (induction k rule: unescape.induct)
  case 1
  show ?case by simp
next
  case (2 c)
  then show ?case by (simp add: plain_char_def)
next
  case (3 c e r)
  then show ?case by (simp add: plain_char_def)
qed

lemma plain_no_NUL: "list_all plain_char k \<Longrightarrow> NUL \<notin> set k"
  by (induction k) (auto simp: plain_char_def)

lemma get_charstr_plain:
  assumes "list_all plain_char k" and "0 < avail w"
  shows "get_charstr w (Some ([dquote] @ k @ [dquote])) = Some (Some k, w\<lparr>avail := avail w - 1\<rparr>)"
  using get_charstr_quoted[OF plain_no_NUL[OF assms(1)] assms(2)] unescape_plain[OF assms(1)]
  by simp

lemma JSON_Str_ok:
  "0 < avail w \<Longrightarrow> JSON_Str w name (Some s) =
     (Suc (length (heap w)),
      new_cell w (zero_node\<lparr>node_name := name, node_type := JSON_VAR, var_type := JVARTYPE_STR,
         var_val := Val_str s, var_len := strlen s\<rparr>))"
  by (simp add: JSON_Str_def JSON_Var_ok modify_new_cell)

lemma ucast_of_nat_64_16: "n < 65536 \<Longrightarrow> (ucast (of_nat n :: 64 word) :: 16 word) = of_nat n"
  by (simp add: unsigned_of_nat take_bit_nat_eq_self)

lemma ucast_of_nat_64_32: "n < 4294967296 \<Longrightarrow> (ucast (of_nat n :: 64 word) :: 32 word) = of_nat n"
  by (simp add: unsigned_of_nat take_bit_nat_eq_self)

lemma strtoull_show_nat:
  assumes "n < 4294967296"
  shows "strtoull (show_nat n) = of_nat n"
proof -
  obtain c r where cr: "show_nat n = c # r"
    using show_nat_nonempty[of n] by (cases "show_nat n") auto
  have d: "list_all is_digit (c # r)"
    using show_nat_digits[of n] cr by simp
  have "strto_subject (c_str (show_nat n)) = int (digits_value (show_nat n))"
    using strto_subject_pos[OF d] c_str_digits[OF d] cr by simp
  then have v: "strto_subject (c_str (show_nat n)) = int n"
    by (simp add: digits_value_show_nat)
  show ?thesis
    using assms by (simp add: strtoull_def v ULLONG_MAX_def)
qed

lemma show_nat_not_minus: "\<not> (case show_nat n of [] \<Rightarrow> False | c # _ \<Rightarrow> c = CHR ''-'')"
  using show_nat_digits[of n] by (cases "show_nat n") (auto dest: is_digit_not_sign)

lemma uint_of_nat64: "n < 4294967296 \<Longrightarrow> uint (of_nat n :: 64 word) = int n"
  by (simp add: uint_nat unat_of_nat take_bit_nat_eq_self)

lemma JSON_ParseNumber_show_nat:
  assumes "n < 2147483648" and "0 < avail w"
  shows "JSON_ParseNumber w None (Some (show_nat n)) =
     (Suc (length (heap w)),
      new_cell w (if n < 65535
        then zero_node\<lparr>node_name := None, node_type := JSON_VAR, var_type := JVARTYPE_UINT16,
               var_len := 2, var_val := Val_ui (of_nat n)\<rparr>
        else zero_node\<lparr>node_name := None, node_type := JSON_VAR, var_type := JVARTYPE_UINT32,
               var_len := 4, var_val := Val_ul (of_nat n)\<rparr>))"
proof -
  have s: "strtoull (show_nat n) = of_nat n"
    using assms(1) by (intro strtoull_show_nat) simp
  have u: "uint (of_nat n :: 64 word) = int n"
    using assms(1) by (intro uint_of_nat64) simp
  show ?thesis
  proof (cases "n < 65535")
    case True
    then show ?thesis
      using assms show_nat_not_minus[of n]
      by (simp add: JSON_ParseNumber_def JSON_Var_ok modify_new_cell s u ucast_of_nat_64_16)
  next
    case False
    then show ?thesis
      using assms show_nat_not_minus[of n]
      by (simp add: JSON_ParseNumber_def JSON_Var_ok modify_new_cell s u ucast_of_nat_64_32)
  qed
qed

lemma JSON_Float_ok:
  "0 < avail w \<Longrightarrow> JSON_Float w name x =
     (Suc (length (heap w)),
      new_cell w (zero_node\<lparr>node_name := name, node_type := JSON_VAR, var_type := JVARTYPE_FLOAT,
         var_val := Val_f x, var_len := 4\<rparr>))"
  by (simp add: JSON_Float_def JSON_Var_ok modify_new_cell)

text \<open>The parser on the paths without a syntax error.\<close>

lemma parse_value_NUM:
  "yypush (d + 1) sz w = (Inr sz0, w0) \<Longrightarrow> JSON_ParseNumber w0 None (Some txt) = (p, w1) \<Longrightarrow>
   parse atof NT_value d sz w ((NUM, txt) # r) = Some (Parsed p r sz0 w1)"
  by (rule trans[OF parse.simps]) (simp add: next_is_def)

lemma parse_value_FLOAT:
  "yypush (d + 1) sz w = (Inr sz0, w0) \<Longrightarrow> JSON_Float w0 None (atof txt) = (p, w1) \<Longrightarrow>
   parse atof NT_value d sz w ((FLOAT, txt) # r) = Some (Parsed p r sz0 w1)"
  by (rule trans[OF parse.simps]) (simp add: next_is_def)

lemma parse_value_TRUE:
  "yypush (d + 1) sz w = (Inr sz0, w0) \<Longrightarrow> JSON_Bool w0 None 1 = (p, w1) \<Longrightarrow>
   parse atof NT_value d sz w ((TRUE, txt) # r) = Some (Parsed p r sz0 w1)"
  by (rule trans[OF parse.simps]) (simp add: next_is_def)

lemma parse_value_FALSE:
  "yypush (d + 1) sz w = (Inr sz0, w0) \<Longrightarrow> JSON_Bool w0 None 0 = (p, w1) \<Longrightarrow>
   parse atof NT_value d sz w ((FALSE, txt) # r) = Some (Parsed p r sz0 w1)"
  by (rule trans[OF parse.simps]) (simp add: next_is_def)

lemma parse_value_CHARSTR:
  "yypush (d + 1) sz w = (Inr sz0, w0) \<Longrightarrow> get_charstr w0 (Some txt) = Some (s, w1) \<Longrightarrow>
   JSON_Str w1 None s = (p, w2) \<Longrightarrow>
   parse atof NT_value d sz w ((CHARSTR, txt) # r) = Some (Parsed p r sz0 w2)"
  by (rule trans[OF parse.simps]) (simp add: next_is_def)

lemma parse_value_LBRACKET:
  "parse atof NT_value d sz w ((LBRACKET, txt) # r) = parse atof NT_json d sz w ((LBRACKET, txt) # r)"
  by (rule trans[OF parse.simps]) (simp add: next_is_def)

lemma parse_value_LBRACE:
  "parse atof NT_value d sz w ((LBRACE, txt) # r) = parse atof NT_json d sz w ((LBRACE, txt) # r)"
  by (rule trans[OF parse.simps]) (simp add: next_is_def)

lemma parse_json_array:
  "yypush (d + 1) sz w = (Inr sz0, w0) \<Longrightarrow>
   parse atof NT_value_list (d + 1) sz0 w0 r = Some (Parsed first ((RBRACKET, c) # r1) sz1 w1) \<Longrightarrow>
   yypush (d + 3) sz1 w1 = (Inr sz2, w2) \<Longrightarrow>
   json_list_action w2 first = (p, w3) \<Longrightarrow>
   parse atof NT_json d sz w ((LBRACKET, txt) # r) = Some (Parsed p r1 sz2 (w3\<lparr>root := p\<rparr>))"
  by (rule trans[OF parse.simps]) (simp add: next_is_def)

lemma parse_json_object:
  "yypush (d + 1) sz w = (Inr sz0, w0) \<Longrightarrow>
   parse atof NT_attribute_list (d + 1) sz0 w0 r = Some (Parsed first ((RBRACE, c) # r1) sz1 w1) \<Longrightarrow>
   yypush (d + 3) sz1 w1 = (Inr sz2, w2) \<Longrightarrow>
   json_object_action w2 first = (p, w3) \<Longrightarrow>
   parse atof NT_json d sz w ((LBRACE, txt) # r) = Some (Parsed p r1 sz2 (w3\<lparr>root := p\<rparr>))"
  by (rule trans[OF parse.simps]) (simp add: next_is_def)

lemma parse_list_single:
  "parse atof (item_nt m) d sz w toks = Some (Parsed v r sz1 w1) \<Longrightarrow> \<not> next_is COMMA r \<Longrightarrow>
   parse atof (list_nt m) d sz w toks = Some (Parsed v r sz1 w1)"
  by (rule trans[OF parse.simps]) (simp add: list_nt_def item_nt_def split: if_splits)

lemma parse_list_more:
  "parse atof (item_nt m) d sz w toks = Some (Parsed v ((COMMA, c) # r) sz1 w1) \<Longrightarrow>
   yypush (d + 2) sz1 w1 = (Inr sz2, w2) \<Longrightarrow>
   parse atof (list_nt m) (d + 2) sz2 w2 r = Some (Parsed vl r2 sz3 w3) \<Longrightarrow>
   set_pNext w3 v vl = Some w4 \<Longrightarrow>
   parse atof (list_nt m) d sz w toks = Some (Parsed v r2 sz3 w4)"
  by (rule trans[OF parse.simps]) (simp add: list_nt_def item_nt_def next_is_def split: if_splits)

lemma parse_attribute:
  "yypush (d + 1) sz w = (Inr sz0, w0) \<Longrightarrow>
   get_charstr w0 (Some txt) = Some (key, w1) \<Longrightarrow>
   yypush (d + 2) sz0 w1 = (Inr sz2, w2) \<Longrightarrow>
   parse atof NT_value (d + 2) sz2 w2 r = Some (Parsed v r1 sz3 w3) \<Longrightarrow>
   set_name w3 v key = Some w4 \<Longrightarrow>
   parse atof NT_attribute d sz w ((CHARSTR, txt) # (COLON, c) # r) = Some (Parsed v r1 sz3 w4)"
  by (rule trans[OF parse.simps]) (simp add: next_is_def)

text \<open>The stack of the parser.\<close>

lemma stack_grows_step:
  "0 < sz \<Longrightarrow> sz < YYMAXDEPTH \<Longrightarrow> stack_grows sz = Suc (stack_grows (min (2 * sz) YYMAXDEPTH))"
  by (subst stack_grows.simps) simp

lemma stack_ok_less: "stack_ok d sz \<Longrightarrow> d' \<le> d \<Longrightarrow> stack_ok d' sz"
  by (simp add: stack_ok_def)

lemma yypush_ok:
  assumes ok: "stack_ok d sz" and dm: "Suc d < YYMAXDEPTH" and av: "stack_grows sz \<le> avail w"
  shows "\<exists>sz0 a. yypush (Suc d) sz w = (Inr sz0, w\<lparr>avail := a\<rparr>) \<and> stack_ok (Suc d) sz0 \<and>
           spent w sz (w\<lparr>avail := a\<rparr>) sz0 0"
proof (cases "Suc d < sz")
  case True
  then show ?thesis
    using ok by (intro exI[of _ sz] exI[of _ "avail w"]) (simp add: yypush_def stack_ok_def spent_def)
next
  case False
  with ok have e: "Suc d = sz" by (simp add: stack_ok_def)
  have lt: "sz < YYMAXDEPTH" using e dm by simp
  have pos: "0 < sz" using e by simp
  let ?sz1 = "min (2 * sz) YYMAXDEPTH"
  have g: "stack_grows sz = Suc (stack_grows ?sz1)"
    using pos lt by (rule stack_grows_step)
  have a: "0 < avail w" using av g by simp
  have s1: "sz < ?sz1" using pos lt by simp
  have 1: "yypush (Suc d) sz w = (Inr ?sz1, w\<lparr>avail := avail w - 1\<rparr>)"
    using lt a s1 unfolding e by (simp add: yypush_def Let_def)
  have 2: "stack_ok (Suc d) ?sz1"
    using ok s1 unfolding e by (simp add: stack_ok_def)
  have 3: "spent w sz (w\<lparr>avail := avail w - 1\<rparr>) ?sz1 0"
    using g a s1 by (simp add: spent_def)
  show ?thesis
    using 1 2 3 by blast
qed

lemma spent_budget:
  "spent w sz w1 sz1 n1 \<Longrightarrow> n1 + n2 + stack_grows sz \<le> avail w \<Longrightarrow> n2 + stack_grows sz1 \<le> avail w1"
  by (simp add: spent_def)

lemma spent_trans:
  "spent w sz w1 sz1 n1 \<Longrightarrow> spent w1 sz1 w2 sz2 n2 \<Longrightarrow> spent w sz w2 sz2 (n1 + n2)"
  by (simp add: spent_def)

lemma spent_new_cell: "0 < avail w \<Longrightarrow> spent w sz (new_cell w nd) sz 1"
  by (simp add: spent_def new_cell_def)

lemma spent_strdup: "0 < avail w \<Longrightarrow> spent w sz (w\<lparr>avail := avail w - 1\<rparr>) sz 1"
  by (simp add: spent_def)

lemma spent_store: "spent w sz w1 sz1 n \<Longrightarrow> spent w sz (store w1 p nd) sz1 n"
  by (simp add: spent_def)

lemma spent_root: "spent w sz w1 sz1 n \<Longrightarrow> spent w sz (w1\<lparr>root := r\<rparr>) sz1 n"
  by (simp add: spent_def)

text \<open>The parser on the text of a tree.\<close>

lemma length_heap_new_cell [simp]: "length (heap (new_cell w nd)) = Suc (length (heap w))"
  by (simp add: new_cell_def)

lemma prepr_avail:
  fixes b :: "'f jbody"
  shows "prepr w lo p b \<Longrightarrow> prepr (w\<lparr>avail := a\<rparr>) lo p b"
  by (erule prepr_frame(1)) simp

lemma prepr_list_avail:
  fixes l :: "'f jlist"
  assumes "prepr_list w lo hi q l"
  shows "prepr_list (w\<lparr>avail := a\<rparr>) lo hi q l"
  using assms
proof (rule prepr_frame(2))
  show "lo < q \<or> l = LNil" using assms by (rule prepr_list_lo)
qed simp

lemma parsed_as_base: "heap w0 = heap w \<Longrightarrow> parsed_as w0 w' p nm b \<Longrightarrow> parsed_as w w' p nm b"
  by (auto simp: parsed_as_def heap_extends_def)

lemma parsed_list_as_base:
  "heap w0 = heap w \<Longrightarrow> parsed_list_as w0 w' first l \<Longrightarrow> parsed_list_as w w' first l"
  by (simp add: parsed_list_as_def heap_extends_def)

lemma parsed_list_as_avail:
  assumes "parsed_list_as w w1 first l"
  shows "parsed_list_as w (w1\<lparr>avail := a\<rparr>) first l"
proof -
  have "prepr_list w1 (length (heap w)) (length (heap w1)) first l" and "heap_extends w w1"
    using assms by (simp_all add: parsed_list_as_def)
  then show ?thesis
    using prepr_list_avail[of w1 "length (heap w)" "length (heap w1)" first l a]
    by (simp add: parsed_list_as_def heap_extends_def)
qed

lemma parsed_as_new_cell:
  assumes "node_name nd = nm" and "pNext nd = NULL"
    and "\<And>w'. load w' (Suc (length (heap w))) = Some nd \<Longrightarrow> repr w' (Suc (length (heap w))) b"
    and "\<not> is_container b"
  shows "parsed_as w (new_cell w nd) (Suc (length (heap w))) nm b"
proof -
  have l: "load (new_cell w nd) (Suc (length (heap w))) = Some nd"
    by (simp add: load_new_cell)
  have "prepr (new_cell w nd) (length (heap w)) (Suc (length (heap w))) b"
    using assms(3)[OF l] assms(4) by (cases b) (simp_all add: is_container_def)
  then show ?thesis
    using assms(1,2) l by (simp add: parsed_as_def heap_extends_new_cell)
qed

lemma parsed_as_set_name:
  assumes a: "parsed_as w w1 p None b" and nd: "load w1 p = Some nd"
  shows "parsed_as w (store w1 p (nd\<lparr>node_name := nm\<rparr>)) p nm b"
proof -
  have v: "valid_ptr w1 p" using nd by (rule load_Some_valid)
  have pr: "prepr w1 (length (heap w)) p b" using a by (auto simp: parsed_as_def)
  have lo: "length (heap w) < p" using pr by (rule prepr_lo)
  have 1: "prepr (store w1 p (nd\<lparr>node_name := nm\<rparr>)) (length (heap w)) p b"
    using pr nd by (rule prepr_store_root) simp_all
  have 2: "heap_extends w (store w1 p (nd\<lparr>node_name := nm\<rparr>))"
    using lo a by (intro heap_extends_store) (auto simp: parsed_as_def)
  show ?thesis
    using a nd v 1 2 by (auto simp: parsed_as_def)
qed

lemma parsed_as_container:
  assumes pl: "parsed_list_as w w1 first l"
    and nd: "nd = zero_node\<lparr>node_name := None, node_type := ty, pFirst := first\<rparr>"
    and b: "b = BArr l \<and> ty = JSON_ARRAY \<or> b = BObj l \<and> ty = JSON_OBJECT"
  shows "parsed_as w ((new_cell w1 nd)\<lparr>root := r\<rparr>) (Suc (length (heap w1))) None b"
proof -
  let ?w' = "(new_cell w1 nd)\<lparr>root := r\<rparr>"
  have ex: "heap_extends w w1" and pr: "prepr_list w1 (length (heap w)) (length (heap w1)) first l"
    using pl by (simp_all add: parsed_list_as_def)
  have le: "length (heap w) \<le> length (heap w1)"
    using ex by (rule heap_extends_length)
  have ld: "load ?w' (Suc (length (heap w1))) = Some nd"
    by (simp add: load_new_cell)
  have ch: "prepr_list ?w' (length (heap w)) (length (heap w1)) first l"
    using pr
  proof (rule prepr_frame(2))
    fix a assume "length (heap w) < a" "a \<le> length (heap w1)"
    then show "load ?w' a = load w1 a" by (simp add: load_new_cell)
  next
    show "length (heap w) < first \<or> l = LNil" using pr by (rule prepr_list_lo)
  qed
  have 1: "prepr ?w' (length (heap w)) (Suc (length (heap w1))) b"
    using b ld ch le nd by auto
  have 2: "heap_extends w ?w'"
    using ex heap_extends_new_cell[of w1 nd] by (intro heap_extends_root) (rule heap_extends_trans)
  have 4: "pNext nd = NULL" "node_name nd = None"
    using nd by (simp_all add: zero_node_def)
  show ?thesis
    using 1 2 4 ld by (simp add: parsed_as_def)
qed

lemma parsed_list_as_single:
  assumes "parsed_as v w1 p nm b"
  shows "parsed_list_as v w1 p (LCons nm b LNil)"
  using assms by (auto simp: parsed_as_def parsed_list_as_def split: option.splits)

lemma parsed_list_as_cons:
  assumes a1: "parsed_as v w1 p nm b" and a2: "parsed_list_as w1 w2 vl l"
    and nd: "load w2 p = Some nd"
  shows "parsed_list_as v (store w2 p (nd\<lparr>pNext := vl\<rparr>)) p (LCons nm b l)"
proof -
  let ?w3 = "store w2 p (nd\<lparr>pNext := vl\<rparr>)"
  have p: "p = length (heap w1)" and pb: "prepr w1 (length (heap v)) p b"
    and e1: "heap_extends v w1"
    using a1 by (auto simp: parsed_as_def)
  have pl: "prepr_list w2 p (length (heap w2)) vl l" and e2: "heap_extends w1 w2"
    using a2 p by (auto simp: parsed_list_as_def)
  have l1: "load w1 p = Some nd"
    using heap_extends_load[OF e2, of p] nd p by simp
  have nm: "node_name nd = nm"
    using a1 l1 by (auto simp: parsed_as_def)
  have v: "valid_ptr w2 p" using nd by (rule load_Some_valid)
  have lo: "length (heap v) < p" using pb by (rule prepr_lo)
  have pb2: "prepr w2 (length (heap v)) p b"
    using pb
  proof (rule prepr_frame(1))
    fix a assume "length (heap v) < a" "a \<le> p"
    then show "load w2 a = load w1 a" using heap_extends_load[OF e2, of a] p by simp
  qed
  have pb3: "prepr ?w3 (length (heap v)) p b"
    using pb2 nd by (rule prepr_store_root) simp_all
  have pl3: "prepr_list ?w3 p (length (heap w2)) vl l"
    using pl
  proof (rule prepr_frame(2))
    fix a assume "p < a" "a \<le> length (heap w2)"
    then show "load ?w3 a = load w2 a" by simp
  next
    show "p < vl \<or> l = LNil" using pl by (rule prepr_list_lo)
  qed
  have e3: "heap_extends v ?w3"
    using lo heap_extends_trans[OF e1 e2] by (rule heap_extends_store)
  have "p \<le> length (heap w2)"
    using v by (simp add: valid_ptr_def)
  then show ?thesis
    using pb3 pl3 e3 v nm by (simp add: parsed_list_as_def)
qed

lemma toks_list_True:
  "l \<noteq> LNil \<Longrightarrow> toks_list fmt_f True l = (COMMA, '','') # toks_list fmt_f False l"
  by (cases l) simp_all

lemma json_list_action_ok:
  "0 < avail w \<Longrightarrow> json_list_action w first =
     (Suc (length (heap w)),
      new_cell w (zero_node\<lparr>node_name := None, node_type := JSON_ARRAY, pFirst := first\<rparr>))"
  by (simp add: json_list_action_def JSON_Array_ok modify_new_cell)

lemma json_object_action_ok:
  "0 < avail w \<Longrightarrow> json_object_action w first =
     (Suc (length (heap w)),
      new_cell w (zero_node\<lparr>node_name := None, node_type := JSON_OBJECT, pFirst := first\<rparr>))"
  by (simp add: json_object_action_def JSON_Object_ok modify_new_cell)

text \<open>
  A leaf: the token is pushed, then the constructor gets the cell \<open>nd\<close> from a state \<open>w1\<close>
  with the heap of \<open>w\<close>.
\<close>

lemma parse_leaf_cell:
  assumes ok: "stack_ok d sz" and dm: "d + 1 < YYMAXDEPTH" and bud: "n + stack_grows sz \<le> avail w"
    and n: "0 < n"
    and step: "\<And>sz0 w0. yypush (d + 1) sz w = (Inr sz0, w0) \<Longrightarrow> heap w0 = heap w \<Longrightarrow>
        spent w sz w0 sz0 0 \<Longrightarrow>
        \<exists>w1. heap w1 = heap w \<and> spent w0 sz0 w1 sz0 (n - 1) \<and>
          parse atof NT_value d sz w ts = Some (Parsed (Suc (length (heap w1))) rest sz0 (new_cell w1 nd))"
    and nd: "node_name nd = None" "pNext nd = NULL"
    and rp: "\<And>w'. load w' (Suc (length (heap w))) = Some nd \<Longrightarrow> repr w' (Suc (length (heap w))) b"
    and nc: "\<not> is_container b"
  shows "\<exists>w' sz'. parse atof NT_value d sz w ts = Some (Parsed (length (heap w')) rest sz' w') \<and>
           parsed_as w w' (length (heap w')) None b \<and> stack_ok (Suc d) sz' \<and>
           spent w sz w' sz' n \<and> (is_container b \<longrightarrow> root w' = length (heap w'))"
proof -
  have g: "stack_grows sz \<le> avail w" using bud by simp
  from yypush_ok[OF ok _ g] dm obtain sz0 a
    where pu: "yypush (Suc d) sz w = (Inr sz0, w\<lparr>avail := a\<rparr>)" and ok0: "stack_ok (Suc d) sz0"
      and sp0: "spent w sz (w\<lparr>avail := a\<rparr>) sz0 0"
    by auto
  from step[of sz0 "w\<lparr>avail := a\<rparr>"] pu sp0 obtain w1
    where h1: "heap w1 = heap w" and sp1: "spent (w\<lparr>avail := a\<rparr>) sz0 w1 sz0 (n - 1)"
      and pa: "parse atof NT_value d sz w ts =
        Some (Parsed (Suc (length (heap w1))) rest sz0 (new_cell w1 nd))"
    by auto
  have sp01: "spent w sz w1 sz0 (n - 1)"
    using spent_trans[OF sp0 sp1] by simp
  have "1 + stack_grows sz0 \<le> avail w1"
    using sp01 bud n by (intro spent_budget[OF sp01]) simp
  then have av1: "0 < avail w1" by simp
  have sp: "spent w sz (new_cell w1 nd) sz0 n"
    using spent_trans[OF sp01 spent_new_cell[OF av1, of sz0 nd]] n by simp
  have "parsed_as w1 (new_cell w1 nd) (Suc (length (heap w1))) None b"
    using nd rp nc unfolding h1[symmetric] by (rule parsed_as_new_cell)
  then have pr: "parsed_as w (new_cell w1 nd) (Suc (length (heap w1))) None b"
    by (rule parsed_as_base[OF h1])
  show ?thesis
    using pa pr ok0 sp nc by (intro exI[of _ "new_cell w1 nd"] exI[of _ sz0]) simp
qed

lemma parse_item:
  fixes w :: "'f world"
  assumes nm: "if m then (\<exists>k. nm = Some k \<and> list_all plain_char k) else nm = None"
    and ok: "stack_ok d sz"
    and dm: "d + ((case nm of None \<Rightarrow> 0 | Some k \<Rightarrow> 2) + stack_body b) < YYMAXDEPTH"
    and bud: "(case nm of None \<Rightarrow> 0 | Some k \<Rightarrow> 1) + n + stack_grows sz \<le> avail w"
    and pv: "\<And>d0 sz0 (w0 :: 'f world). stack_ok d0 sz0 \<Longrightarrow> d0 + stack_body b < YYMAXDEPTH \<Longrightarrow>
        n + stack_grows sz0 \<le> avail w0 \<Longrightarrow>
        \<exists>w' sz'. parse atof NT_value d0 sz0 w0 (tb @ rest) =
                   Some (Parsed (length (heap w')) rest sz' w') \<and>
                 parsed_as w0 w' (length (heap w')) None b' \<and> stack_ok (Suc d0) sz' \<and>
                 spent w0 sz0 w' sz' n"
  shows "\<exists>w' sz'. parse atof (item_nt m) d sz w (toks_name nm @ tb @ rest) =
                 Some (Parsed (length (heap w')) rest sz' w') \<and>
               parsed_as w w' (length (heap w')) nm b' \<and> stack_ok (Suc d) sz' \<and>
               spent w sz w' sz' ((case nm of None \<Rightarrow> 0 | Some k \<Rightarrow> 1) + n)"
proof (cases m)
  case False
  then have "nm = None" using nm by simp
  then show ?thesis
    using pv[OF ok, of w] dm bud False by (simp add: item_nt_def toks_name_def)
next
  case True
  then obtain k where k: "nm = Some k" "list_all plain_char k"
    using nm by auto
  have d1: "Suc d < YYMAXDEPTH" and d2: "Suc (Suc d) < YYMAXDEPTH"
    and d3: "Suc (Suc d) + stack_body b < YYMAXDEPTH"
    using dm k by simp_all
  have b0: "0 + (1 + n) + stack_grows sz \<le> avail w"
    using bud k by simp
  then have g0: "stack_grows sz \<le> avail w" by simp
  from yypush_ok[OF ok d1 g0] obtain sz0 a
    where pu0: "yypush (Suc d) sz w = (Inr sz0, w\<lparr>avail := a\<rparr>)" and ok0: "stack_ok (Suc d) sz0"
      and sp0: "spent w sz (w\<lparr>avail := a\<rparr>) sz0 0"
    by blast
  let ?w0 = "w\<lparr>avail := a\<rparr>"
  have b1: "1 + n + stack_grows sz0 \<le> avail ?w0"
    using sp0 b0 by (rule spent_budget)
  then have av0: "0 < avail ?w0" by simp
  let ?w1 = "?w0\<lparr>avail := avail ?w0 - 1\<rparr>"
  have gc: "get_charstr ?w0 (Some ([dquote] @ k @ [dquote])) = Some (Some k, ?w1)"
    using k(2) av0 by (rule get_charstr_plain)
  have sp1: "spent ?w0 sz0 ?w1 sz0 1"
    using av0 by (rule spent_strdup)
  have b2: "n + stack_grows sz0 \<le> avail ?w1"
    using sp1 b1 by (intro spent_budget[OF sp1]) simp
  then have g1: "stack_grows sz0 \<le> avail ?w1" by simp
  from yypush_ok[OF ok0 d2 g1] obtain sz2 a2
    where pu2: "yypush (Suc (Suc d)) sz0 ?w1 = (Inr sz2, ?w1\<lparr>avail := a2\<rparr>)"
      and ok2: "stack_ok (Suc (Suc d)) sz2"
      and sp2: "spent ?w1 sz0 (?w1\<lparr>avail := a2\<rparr>) sz2 0"
    by blast
  let ?w2 = "?w1\<lparr>avail := a2\<rparr>"
  have b3: "n + stack_grows sz2 \<le> avail ?w2"
    using sp2 b2 by (intro spent_budget[OF sp2]) simp
  from pv[OF ok2 d3 b3] obtain w3 sz3
    where p3: "parse atof NT_value (Suc (Suc d)) sz2 ?w2 (tb @ rest) =
        Some (Parsed (length (heap w3)) rest sz3 w3)"
      and a3: "parsed_as ?w2 w3 (length (heap w3)) None b'"
      and ok3: "stack_ok (Suc (Suc (Suc d))) sz3"
      and sp3: "spent ?w2 sz2 w3 sz3 n"
    by blast
  from a3 obtain nd where nd: "load w3 (length (heap w3)) = Some nd"
    by (auto simp: parsed_as_def split: option.splits)
  let ?w4 = "store w3 (length (heap w3)) (nd\<lparr>node_name := Some k\<rparr>)"
  have sn: "set_name w3 (length (heap w3)) (Some k) = Some ?w4"
    by (simp add: set_name_def nd)
  have pu0': "yypush (d + 1) sz w = (Inr sz0, ?w0)" using pu0 by simp
  have pu2': "yypush (d + 2) sz0 ?w1 = (Inr sz2, ?w2)" using pu2 by simp
  have p3': "parse atof NT_value (d + 2) sz2 ?w2 (tb @ rest) =
        Some (Parsed (length (heap w3)) rest sz3 w3)"
    using p3 by simp
  have 1: "parse atof NT_attribute d sz w
          ((CHARSTR, [dquote] @ k @ [dquote]) # (COLON, '':'') # tb @ rest) =
        Some (Parsed (length (heap w3)) rest sz3 ?w4)"
    using pu0' gc pu2' p3' sn by (rule parse_attribute)
  have "parsed_as w w3 (length (heap w3)) None b'"
    using a3 by (intro parsed_as_base[of ?w2 w]) simp_all
  then have 2: "parsed_as w ?w4 (length (heap w3)) (Some k) b'"
    using nd by (rule parsed_as_set_name)
  have 3: "stack_ok (Suc d) sz3"
    using ok3 by (rule stack_ok_less) simp
  have "spent w sz w3 sz3 (0 + 1 + 0 + n)"
    using sp0 sp1 sp2 sp3 by (intro spent_trans)
  then have 4: "spent w sz ?w4 sz3 (1 + n)"
    by (intro spent_store) simp
  show ?thesis
    using 1 2 3 4 True k
    by (intro exI[of _ ?w4] exI[of _ sz3]) (simp add: item_nt_def toks_name_def)
qed

lemma spent_refl: "spent w sz w sz 0"
  by (simp add: spent_def)

lemma parse_tree:
  fixes b :: "'f jbody" and l :: "'f jlist" and w v :: "'f world"
  shows "rt_body fmt_f atof b \<Longrightarrow> stack_ok d sz \<Longrightarrow> d + stack_body b < YYMAXDEPTH \<Longrightarrow>
      allocs_body b + stack_grows sz \<le> avail w \<Longrightarrow>
      \<exists>w' sz'. parse atof NT_value d sz w (toks_body fmt_f b @ rest) =
                 Some (Parsed (length (heap w')) rest sz' w') \<and>
           parsed_as w w' (length (heap w')) None (reparse fmt_f atof b) \<and>
           stack_ok (Suc d) sz' \<and> spent w sz w' sz' (allocs_body b) \<and>
           (is_container b \<longrightarrow> root w' = length (heap w'))"
    and "l \<noteq> LNil \<Longrightarrow> rt_list fmt_f atof m l \<Longrightarrow> \<not> next_is COMMA rest' \<Longrightarrow> stack_ok e tz \<Longrightarrow>
      e + stack_list l < YYMAXDEPTH \<Longrightarrow> allocs_list l + stack_grows tz \<le> avail v \<Longrightarrow>
      \<exists>v' tz' first. parse atof (list_nt m) e tz v (toks_list fmt_f False l @ rest') =
                 Some (Parsed first rest' tz' v') \<and>
           parsed_list_as v v' first (reparse_list fmt_f atof l) \<and>
           stack_ok (Suc e) tz' \<and> spent v tz v' tz' (allocs_list l)"
proof (induction b and l arbitrary: w rest d sz and v rest' m e tz)
  case (BBool x)
  let ?nd = "zero_node\<lparr>node_name := None, node_type := JSON_BOOL, var_type := JVARTYPE_UINT16,
         var_len := 2, var_val := Val_ui (if x then 1 else 0)\<rparr> :: 'f jnode"
  have dm: "d + 1 < YYMAXDEPTH" and bud: "1 + stack_grows sz \<le> avail w"
    using BBool.prems by simp_all
  have "\<exists>w' sz'. parse atof NT_value d sz w (toks_body fmt_f (BBool x) @ rest) =
           Some (Parsed (length (heap w')) rest sz' w') \<and>
           parsed_as w w' (length (heap w')) None (BBool x) \<and> stack_ok (Suc d) sz' \<and>
           spent w sz w' sz' 1 \<and> (is_container (BBool x :: 'f jbody) \<longrightarrow> root w' = length (heap w'))"
    using BBool.prems(2) dm bud
  proof (rule parse_leaf_cell[where nd = ?nd])
    fix sz0 and w0 :: "'f world"
    assume pu: "yypush (d + 1) sz w = (Inr sz0, w0)" and h: "heap w0 = heap w"
      and sp: "spent w sz w0 sz0 0"
    have "1 + stack_grows sz0 \<le> avail w0"
      using bud by (intro spent_budget[OF sp]) simp
    then have av: "0 < avail w0" by simp
    have j: "JSON_Bool w0 None (if x then 1 else 0) = (Suc (length (heap w0)), new_cell w0 ?nd)"
      using JSON_Bool_ok[OF av, of None "if x then 1 else 0"] by simp
    have "parse atof NT_value d sz w (toks_body fmt_f (BBool x) @ rest) =
        Some (Parsed (Suc (length (heap w0))) rest sz0 (new_cell w0 ?nd))"
      using j pu by (cases x) (simp_all add: parse_value_TRUE parse_value_FALSE)
    then show "\<exists>w1. heap w1 = heap w \<and> spent w0 sz0 w1 sz0 (1 - 1) \<and>
        parse atof NT_value d sz w (toks_body fmt_f (BBool x) @ rest) =
          Some (Parsed (Suc (length (heap w1))) rest sz0 (new_cell w1 ?nd))"
      using h by (intro exI[of _ w0]) (simp add: spent_refl)
  qed (simp_all add: zero_node_def is_container_def)
  then show ?case by simp
next
  case (BStr s)
  let ?nd = "zero_node\<lparr>node_name := None, node_type := JSON_VAR, var_type := JVARTYPE_STR,
         var_val := Val_str s, var_len := strlen s\<rparr> :: 'f jnode"
  have pl: "list_all plain_char s" and dm: "d + 1 < YYMAXDEPTH"
    and bud: "2 + stack_grows sz \<le> avail w"
    using BStr.prems by simp_all
  have "\<exists>w' sz'. parse atof NT_value d sz w (toks_body fmt_f (BStr s) @ rest) =
           Some (Parsed (length (heap w')) rest sz' w') \<and>
           parsed_as w w' (length (heap w')) None (BStr s) \<and> stack_ok (Suc d) sz' \<and>
           spent w sz w' sz' 2 \<and> (is_container (BStr s :: 'f jbody) \<longrightarrow> root w' = length (heap w'))"
    using BStr.prems(2) dm bud
  proof (rule parse_leaf_cell[where nd = ?nd])
    fix sz0 and w0 :: "'f world"
    assume pu: "yypush (d + 1) sz w = (Inr sz0, w0)" and h: "heap w0 = heap w"
      and sp: "spent w sz w0 sz0 0"
    let ?w1 = "w0\<lparr>avail := avail w0 - 1\<rparr>"
    have b0: "2 + stack_grows sz0 \<le> avail w0"
      using bud by (intro spent_budget[OF sp]) simp
    then have av: "0 < avail w0" and av1: "0 < avail ?w1" by simp_all
    have g: "get_charstr w0 (Some ([dquote] @ s @ [dquote])) = Some (Some s, ?w1)"
      using pl av by (rule get_charstr_plain)
    have j: "JSON_Str ?w1 None (Some s) = (Suc (length (heap ?w1)), new_cell ?w1 ?nd)"
      using av1 by (rule JSON_Str_ok)
    have "parse atof NT_value d sz w (toks_body fmt_f (BStr s) @ rest) =
        Some (Parsed (Suc (length (heap ?w1))) rest sz0 (new_cell ?w1 ?nd))"
      using parse_value_CHARSTR[OF pu g j] by simp
    then show "\<exists>w1. heap w1 = heap w \<and> spent w0 sz0 w1 sz0 (2 - 1) \<and>
        parse atof NT_value d sz w (toks_body fmt_f (BStr s) @ rest) =
          Some (Parsed (Suc (length (heap w1))) rest sz0 (new_cell w1 ?nd))"
      using h spent_strdup[OF av, of sz0] by (intro exI[of _ ?w1]) simp
  qed (simp_all add: zero_node_def is_container_def)
  then show ?case by (simp add: numeral_2_eq_2)
next
  case (BNum n)
  let ?nd = "(if n < 65535
        then zero_node\<lparr>node_name := None, node_type := JSON_VAR, var_type := JVARTYPE_UINT16,
               var_len := 2, var_val := Val_ui (of_nat n)\<rparr>
        else zero_node\<lparr>node_name := None, node_type := JSON_VAR, var_type := JVARTYPE_UINT32,
               var_len := 4, var_val := Val_ul (of_nat n)\<rparr>) :: 'f jnode"
  have n: "n < 2147483648" and dm: "d + 1 < YYMAXDEPTH" and bud: "1 + stack_grows sz \<le> avail w"
    using BNum.prems by simp_all
  have "\<exists>w' sz'. parse atof NT_value d sz w (toks_body fmt_f (BNum n) @ rest) =
           Some (Parsed (length (heap w')) rest sz' w') \<and>
           parsed_as w w' (length (heap w')) None (BNum n) \<and> stack_ok (Suc d) sz' \<and>
           spent w sz w' sz' 1 \<and> (is_container (BNum n :: 'f jbody) \<longrightarrow> root w' = length (heap w'))"
    using BNum.prems(2) dm bud
  proof (rule parse_leaf_cell[where nd = ?nd])
    fix sz0 and w0 :: "'f world"
    assume pu: "yypush (d + 1) sz w = (Inr sz0, w0)" and h: "heap w0 = heap w"
      and sp: "spent w sz w0 sz0 0"
    have "1 + stack_grows sz0 \<le> avail w0"
      using bud by (intro spent_budget[OF sp]) simp
    then have av: "0 < avail w0" by simp
    have j: "JSON_ParseNumber w0 None (Some (show_nat n)) = (Suc (length (heap w0)), new_cell w0 ?nd)"
      using n av by (rule JSON_ParseNumber_show_nat)
    have "parse atof NT_value d sz w (toks_body fmt_f (BNum n) @ rest) =
        Some (Parsed (Suc (length (heap w0))) rest sz0 (new_cell w0 ?nd))"
      using parse_value_NUM[OF pu j] by simp
    then show "\<exists>w1. heap w1 = heap w \<and> spent w0 sz0 w1 sz0 (1 - 1) \<and>
        parse atof NT_value d sz w (toks_body fmt_f (BNum n) @ rest) =
          Some (Parsed (Suc (length (heap w1))) rest sz0 (new_cell w1 ?nd))"
      using h by (intro exI[of _ w0]) (simp add: spent_refl)
  qed (use n in \<open>simp_all add: zero_node_def is_container_def\<close>)
  then show ?case by simp
next
  case (BFloat x)
  let ?nd = "zero_node\<lparr>node_name := None, node_type := JSON_VAR, var_type := JVARTYPE_FLOAT,
         var_val := Val_f (atof (fmt_f x)), var_len := 4\<rparr> :: 'f jnode"
  have dm: "d + 1 < YYMAXDEPTH" and bud: "1 + stack_grows sz \<le> avail w"
    using BFloat.prems by simp_all
  have "\<exists>w' sz'. parse atof NT_value d sz w (toks_body fmt_f (BFloat x) @ rest) =
           Some (Parsed (length (heap w')) rest sz' w') \<and>
           parsed_as w w' (length (heap w')) None (BFloat (atof (fmt_f x))) \<and>
           stack_ok (Suc d) sz' \<and> spent w sz w' sz' 1 \<and>
           (is_container (BFloat (atof (fmt_f x))) \<longrightarrow> root w' = length (heap w'))"
    using BFloat.prems(2) dm bud
  proof (rule parse_leaf_cell[where nd = ?nd])
    fix sz0 and w0 :: "'f world"
    assume pu: "yypush (d + 1) sz w = (Inr sz0, w0)" and h: "heap w0 = heap w"
      and sp: "spent w sz w0 sz0 0"
    have "1 + stack_grows sz0 \<le> avail w0"
      using bud by (intro spent_budget[OF sp]) simp
    then have av: "0 < avail w0" by simp
    have j: "JSON_Float w0 None (atof (fmt_f x)) = (Suc (length (heap w0)), new_cell w0 ?nd)"
      using av by (rule JSON_Float_ok)
    have "parse atof NT_value d sz w ((FLOAT, fmt_f x) # rest) =
        Some (Parsed (Suc (length (heap w0))) rest sz0 (new_cell w0 ?nd))"
      using pu j by (rule parse_value_FLOAT)
    then have "parse atof NT_value d sz w (toks_body fmt_f (BFloat x) @ rest) =
        Some (Parsed (Suc (length (heap w0))) rest sz0 (new_cell w0 ?nd))"
      by simp
    then show "\<exists>w1. heap w1 = heap w \<and> spent w0 sz0 w1 sz0 (1 - 1) \<and>
        parse atof NT_value d sz w (toks_body fmt_f (BFloat x) @ rest) =
          Some (Parsed (Suc (length (heap w1))) rest sz0 (new_cell w1 ?nd))"
      using h by (intro exI[of _ w0]) (simp add: spent_refl)
  qed (simp_all add: zero_node_def is_container_def)
  then show ?case by (simp add: is_container_def)
next
  case (BArr l)
  let ?r = "(RBRACKET, '']'') # rest"
  have ne: "l \<noteq> LNil" and rl: "rt_list fmt_f atof False l"
    using BArr.prems(1) by (simp_all add: rt_list_def)
  have nc: "\<not> next_is COMMA ?r" by (simp add: next_is_def)
  have d1: "Suc d < YYMAXDEPTH" and d3: "Suc (Suc (Suc d)) < YYMAXDEPTH"
    and dl: "Suc d + stack_list l < YYMAXDEPTH"
    using BArr.prems(3) by simp_all
  have b0: "0 + (allocs_list l + 1) + stack_grows sz \<le> avail w"
    using BArr.prems(4) by simp
  then have g0: "stack_grows sz \<le> avail w" by simp
  from yypush_ok[OF BArr.prems(2) d1 g0] obtain sz0 a
    where pu0: "yypush (Suc d) sz w = (Inr sz0, w\<lparr>avail := a\<rparr>)" and ok0: "stack_ok (Suc d) sz0"
      and sp0: "spent w sz (w\<lparr>avail := a\<rparr>) sz0 0"
    by blast
  let ?w0 = "w\<lparr>avail := a\<rparr>"
  have b1: "allocs_list l + 1 + stack_grows sz0 \<le> avail ?w0"
    using sp0 b0 by (rule spent_budget)
  then have b1': "allocs_list l + stack_grows sz0 \<le> avail ?w0" by simp
  from BArr.IH[OF ne rl nc ok0 dl b1'] obtain w1 sz1 first
    where pl: "parse atof NT_value_list (Suc d) sz0 ?w0 (toks_list fmt_f False l @ ?r) =
        Some (Parsed first ?r sz1 w1)"
      and al: "parsed_list_as ?w0 w1 first (reparse_list fmt_f atof l)"
      and ok1: "stack_ok (Suc (Suc d)) sz1"
      and sp1: "spent ?w0 sz0 w1 sz1 (allocs_list l)"
    by (auto simp: list_nt_def)
  have b2: "1 + stack_grows sz1 \<le> avail w1"
    using b1 by (intro spent_budget[OF sp1]) simp
  then have g1: "stack_grows sz1 \<le> avail w1" by simp
  from yypush_ok[OF ok1 d3 g1] obtain sz2 a2
    where pu2: "yypush (Suc (Suc (Suc d))) sz1 w1 = (Inr sz2, w1\<lparr>avail := a2\<rparr>)"
      and ok2: "stack_ok (Suc (Suc (Suc d))) sz2"
      and sp2: "spent w1 sz1 (w1\<lparr>avail := a2\<rparr>) sz2 0"
    by blast
  let ?w2 = "w1\<lparr>avail := a2\<rparr>"
  have b3: "1 + stack_grows sz2 \<le> avail ?w2"
    using b2 by (intro spent_budget[OF sp2]) simp
  then have av2: "0 < avail ?w2" by simp
  let ?nd = "zero_node\<lparr>node_name := None, node_type := JSON_ARRAY, pFirst := first\<rparr> :: 'f jnode"
  let ?p = "Suc (length (heap ?w2))"
  let ?w' = "(new_cell ?w2 ?nd)\<lparr>root := ?p\<rparr>"
  have ja: "json_list_action ?w2 first = (?p, new_cell ?w2 ?nd)"
    using av2 by (rule json_list_action_ok)
  have pu0': "yypush (d + 1) sz w = (Inr sz0, ?w0)" using pu0 by simp
  have pu2': "yypush (d + 3) sz1 w1 = (Inr sz2, ?w2)" using pu2 by (simp add: numeral_3_eq_3)
  have pl': "parse atof NT_value_list (d + 1) sz0 ?w0 (toks_list fmt_f False l @ ?r) =
        Some (Parsed first ?r sz1 w1)"
    using pl by simp
  have "parse atof NT_json d sz w ((LBRACKET, ''['') # toks_list fmt_f False l @ ?r) =
      Some (Parsed ?p rest sz2 ?w')"
    using pu0' pl' pu2' ja by (rule parse_json_array)
  then have 1: "parse atof NT_value d sz w (toks_body fmt_f (BArr l) @ rest) =
      Some (Parsed ?p rest sz2 ?w')"
    by (simp add: parse_value_LBRACKET)
  have "parsed_list_as w w1 first (reparse_list fmt_f atof l)"
    using al by (intro parsed_list_as_base[of ?w0 w]) simp_all
  then have "parsed_list_as w ?w2 first (reparse_list fmt_f atof l)"
    by (rule parsed_list_as_avail)
  then have 2: "parsed_as w ?w' ?p None (BArr (reparse_list fmt_f atof l))"
    by (rule parsed_as_container) simp_all
  have 3: "stack_ok (Suc d) sz2"
    using ok2 by (rule stack_ok_less) simp
  have "spent w sz (new_cell ?w2 ?nd) sz2 (0 + allocs_list l + 0 + 1)"
    using sp0 sp1 sp2 spent_new_cell[OF av2, of sz2 ?nd] by (intro spent_trans)
  then have 4: "spent w sz ?w' sz2 (allocs_list l + 1)"
    by (intro spent_root) simp
  show ?case
    using 1 2 3 4 by (intro exI[of _ ?w'] exI[of _ sz2]) simp
next
  case (BObj l)
  let ?r = "(RBRACE, ''}'') # rest"
  have ne: "l \<noteq> LNil" and rl: "rt_list fmt_f atof True l"
    using BObj.prems(1) by (simp_all add: rt_list_def)
  have nc: "\<not> next_is COMMA ?r" by (simp add: next_is_def)
  have d1: "Suc d < YYMAXDEPTH" and d3: "Suc (Suc (Suc d)) < YYMAXDEPTH"
    and dl: "Suc d + stack_list l < YYMAXDEPTH"
    using BObj.prems(3) by simp_all
  have b0: "0 + (allocs_list l + 1) + stack_grows sz \<le> avail w"
    using BObj.prems(4) by simp
  then have g0: "stack_grows sz \<le> avail w" by simp
  from yypush_ok[OF BObj.prems(2) d1 g0] obtain sz0 a
    where pu0: "yypush (Suc d) sz w = (Inr sz0, w\<lparr>avail := a\<rparr>)" and ok0: "stack_ok (Suc d) sz0"
      and sp0: "spent w sz (w\<lparr>avail := a\<rparr>) sz0 0"
    by blast
  let ?w0 = "w\<lparr>avail := a\<rparr>"
  have b1: "allocs_list l + 1 + stack_grows sz0 \<le> avail ?w0"
    using sp0 b0 by (rule spent_budget)
  then have b1': "allocs_list l + stack_grows sz0 \<le> avail ?w0" by simp
  from BObj.IH[OF ne rl nc ok0 dl b1'] obtain w1 sz1 first
    where pl: "parse atof NT_attribute_list (Suc d) sz0 ?w0 (toks_list fmt_f False l @ ?r) =
        Some (Parsed first ?r sz1 w1)"
      and al: "parsed_list_as ?w0 w1 first (reparse_list fmt_f atof l)"
      and ok1: "stack_ok (Suc (Suc d)) sz1"
      and sp1: "spent ?w0 sz0 w1 sz1 (allocs_list l)"
    by (auto simp: list_nt_def)
  have b2: "1 + stack_grows sz1 \<le> avail w1"
    using b1 by (intro spent_budget[OF sp1]) simp
  then have g1: "stack_grows sz1 \<le> avail w1" by simp
  from yypush_ok[OF ok1 d3 g1] obtain sz2 a2
    where pu2: "yypush (Suc (Suc (Suc d))) sz1 w1 = (Inr sz2, w1\<lparr>avail := a2\<rparr>)"
      and ok2: "stack_ok (Suc (Suc (Suc d))) sz2"
      and sp2: "spent w1 sz1 (w1\<lparr>avail := a2\<rparr>) sz2 0"
    by blast
  let ?w2 = "w1\<lparr>avail := a2\<rparr>"
  have b3: "1 + stack_grows sz2 \<le> avail ?w2"
    using b2 by (intro spent_budget[OF sp2]) simp
  then have av2: "0 < avail ?w2" by simp
  let ?nd = "zero_node\<lparr>node_name := None, node_type := JSON_OBJECT, pFirst := first\<rparr> :: 'f jnode"
  let ?p = "Suc (length (heap ?w2))"
  let ?w' = "(new_cell ?w2 ?nd)\<lparr>root := ?p\<rparr>"
  have ja: "json_object_action ?w2 first = (?p, new_cell ?w2 ?nd)"
    using av2 by (rule json_object_action_ok)
  have pu0': "yypush (d + 1) sz w = (Inr sz0, ?w0)" using pu0 by simp
  have pu2': "yypush (d + 3) sz1 w1 = (Inr sz2, ?w2)" using pu2 by (simp add: numeral_3_eq_3)
  have pl': "parse atof NT_attribute_list (d + 1) sz0 ?w0 (toks_list fmt_f False l @ ?r) =
        Some (Parsed first ?r sz1 w1)"
    using pl by simp
  have "parse atof NT_json d sz w ((LBRACE, ''{'') # toks_list fmt_f False l @ ?r) =
      Some (Parsed ?p rest sz2 ?w')"
    using pu0' pl' pu2' ja by (rule parse_json_object)
  then have 1: "parse atof NT_value d sz w (toks_body fmt_f (BObj l) @ rest) =
      Some (Parsed ?p rest sz2 ?w')"
    by (simp add: parse_value_LBRACE)
  have "parsed_list_as w w1 first (reparse_list fmt_f atof l)"
    using al by (intro parsed_list_as_base[of ?w0 w]) simp_all
  then have "parsed_list_as w ?w2 first (reparse_list fmt_f atof l)"
    by (rule parsed_list_as_avail)
  then have 2: "parsed_as w ?w' ?p None (BObj (reparse_list fmt_f atof l))"
    by (rule parsed_as_container) simp_all
  have 3: "stack_ok (Suc d) sz2"
    using ok2 by (rule stack_ok_less) simp
  have "spent w sz (new_cell ?w2 ?nd) sz2 (0 + allocs_list l + 0 + 1)"
    using sp0 sp1 sp2 spent_new_cell[OF av2, of sz2 ?nd] by (intro spent_trans)
  then have 4: "spent w sz ?w' sz2 (allocs_list l + 1)"
    by (intro spent_root) simp
  show ?case
    using 1 2 3 4 by (intro exI[of _ ?w'] exI[of _ sz2]) simp
next
  case LNil
  then show ?case by simp
next
  case (LCons nm b l)
  let ?na = "(case nm of None \<Rightarrow> 0 | Some k \<Rightarrow> 1) :: nat"
  let ?ns = "(case nm of None \<Rightarrow> 0 | Some k \<Rightarrow> 2) :: nat"
  let ?rest = "toks_list fmt_f True l @ rest'"
  let ?b' = "reparse fmt_f atof b"
  have nm: "if m then (\<exists>k. nm = Some k \<and> list_all plain_char k) else nm = None"
    and rb: "rt_body fmt_f atof b" and rl: "rt_list fmt_f atof m l"
    using LCons.prems(2) by (cases m; cases nm; simp add: rt_list_def)+
  have dm: "e + (?ns + stack_body b) < YYMAXDEPTH"
    using LCons.prems(5) by simp
  have bud: "?na + allocs_body b + allocs_list l + stack_grows tz \<le> avail v"
    using LCons.prems(6) by simp
  then have bud1: "?na + allocs_body b + stack_grows tz \<le> avail v" by simp
  have "\<exists>w' sz'. parse atof (item_nt m) e tz v (toks_name nm @ toks_body fmt_f b @ ?rest) =
                 Some (Parsed (length (heap w')) ?rest sz' w') \<and>
               parsed_as v w' (length (heap w')) nm ?b' \<and> stack_ok (Suc e) sz' \<and>
               spent v tz w' sz' (?na + allocs_body b)"
    using nm LCons.prems(4) dm bud1
  proof (rule parse_item)
    fix d0 sz0 and w0 :: "'f world"
    assume "stack_ok d0 sz0" "d0 + stack_body b < YYMAXDEPTH"
      "allocs_body b + stack_grows sz0 \<le> avail w0"
    from LCons.IH(1)[OF rb this, of ?rest]
    show "\<exists>w' sz'. parse atof NT_value d0 sz0 w0 (toks_body fmt_f b @ ?rest) =
             Some (Parsed (length (heap w')) ?rest sz' w') \<and>
             parsed_as w0 w' (length (heap w')) None ?b' \<and> stack_ok (Suc d0) sz' \<and>
             spent w0 sz0 w' sz' (allocs_body b)"
      by blast
  qed
  then obtain w1 sz1 where p1: "parse atof (item_nt m) e tz v (toks_name nm @ toks_body fmt_f b @ ?rest) =
                 Some (Parsed (length (heap w1)) ?rest sz1 w1)"
    and a1: "parsed_as v w1 (length (heap w1)) nm ?b'"
    and ok1: "stack_ok (Suc e) sz1"
    and sp1: "spent v tz w1 sz1 (?na + allocs_body b)"
    by blast
  show ?case
  proof (cases "l = LNil")
    case True
    have "parse atof (list_nt m) e tz v (toks_name nm @ toks_body fmt_f b @ rest') =
        Some (Parsed (length (heap w1)) rest' sz1 w1)"
      using p1 LCons.prems(3) True by (intro parse_list_single) simp_all
    moreover have "parsed_list_as v w1 (length (heap w1)) (LCons nm ?b' LNil)"
      using a1 by (rule parsed_list_as_single)
    ultimately show ?thesis
      using True ok1 sp1 by (intro exI[of _ w1] exI[of _ sz1] exI[of _ "length (heap w1)"]) simp
  next
    case False
    have t: "toks_list fmt_f True l = (COMMA, '','') # toks_list fmt_f False l"
      using False by (rule toks_list_True)
    have d2: "Suc (Suc e) < YYMAXDEPTH" and dl: "Suc (Suc e) + stack_list l < YYMAXDEPTH"
      using LCons.prems(5) False by simp_all
    have b2: "allocs_list l + stack_grows sz1 \<le> avail w1"
      using bud by (intro spent_budget[OF sp1]) simp
    then have g1: "stack_grows sz1 \<le> avail w1" by simp
    from yypush_ok[OF ok1 d2 g1] obtain sz2 a2
      where pu2: "yypush (Suc (Suc e)) sz1 w1 = (Inr sz2, w1\<lparr>avail := a2\<rparr>)"
        and ok2: "stack_ok (Suc (Suc e)) sz2"
        and sp2: "spent w1 sz1 (w1\<lparr>avail := a2\<rparr>) sz2 0"
      by blast
    let ?w2 = "w1\<lparr>avail := a2\<rparr>"
    have b3: "allocs_list l + stack_grows sz2 \<le> avail ?w2"
      using b2 by (intro spent_budget[OF sp2]) simp
    from LCons.IH(2)[OF False rl LCons.prems(3) ok2 dl b3] obtain w3 sz3 vl
      where p3: "parse atof (list_nt m) (Suc (Suc e)) sz2 ?w2 (toks_list fmt_f False l @ rest') =
          Some (Parsed vl rest' sz3 w3)"
        and a3: "parsed_list_as ?w2 w3 vl (reparse_list fmt_f atof l)"
        and ok3: "stack_ok (Suc (Suc (Suc e))) sz3"
        and sp3: "spent ?w2 sz2 w3 sz3 (allocs_list l)"
      by blast
    have a3': "parsed_list_as w1 w3 vl (reparse_list fmt_f atof l)"
      using a3 by (intro parsed_list_as_base[of ?w2 w1]) simp_all
    have e3: "heap_extends w1 w3" using a3' by (simp add: parsed_list_as_def)
    obtain nd where nd1: "load w1 (length (heap w1)) = Some nd"
      using a1 by (auto simp: parsed_as_def split: option.splits)
    have nd: "load w3 (length (heap w1)) = Some nd"
      using heap_extends_load[OF e3, of "length (heap w1)"] nd1 by simp
    let ?w4 = "store w3 (length (heap w1)) (nd\<lparr>pNext := vl\<rparr>)"
    have sp: "set_pNext w3 (length (heap w1)) vl = Some ?w4"
      by (simp add: set_pNext_def nd)
    have p1': "parse atof (item_nt m) e tz v (toks_name nm @ toks_body fmt_f b @ ?rest) =
        Some (Parsed (length (heap w1)) ((COMMA, '','') # toks_list fmt_f False l @ rest') sz1 w1)"
      using p1 t by simp
    have pu2': "yypush (e + 2) sz1 w1 = (Inr sz2, ?w2)" using pu2 by simp
    have p3': "parse atof (list_nt m) (e + 2) sz2 ?w2 (toks_list fmt_f False l @ rest') =
          Some (Parsed vl rest' sz3 w3)"
      using p3 by simp
    have 1: "parse atof (list_nt m) e tz v (toks_name nm @ toks_body fmt_f b @ ?rest) =
        Some (Parsed (length (heap w1)) rest' sz3 ?w4)"
      using p1' pu2' p3' sp by (rule parse_list_more)
    have 2: "parsed_list_as v ?w4 (length (heap w1)) (LCons nm ?b' (reparse_list fmt_f atof l))"
      using a1 a3' nd by (rule parsed_list_as_cons)
    have 3: "stack_ok (Suc e) sz3"
      using ok3 by (rule stack_ok_less) simp
    have "spent v tz w3 sz3 (?na + allocs_body b + 0 + allocs_list l)"
      by (rule spent_trans[OF spent_trans[OF sp1 sp2] sp3])
    then have 4: "spent v tz ?w4 sz3 (?na + allocs_body b + allocs_list l)"
      by (intro spent_store) simp
    show ?thesis
      using 1 2 3 4 by (intro exI[of _ ?w4] exI[of _ sz3] exI[of _ "length (heap w1)"]) simp
  qed
qed

section \<open>The round trip\<close>

lemma render_no_NUL:
  fixes b :: "'f jbody" and l :: "'f jlist"
  shows "rt_body fmt_f atof b \<Longrightarrow> NUL \<notin> set (render_body fmt_f b)"
    and "rt_elems fmt_f atof l \<or> rt_members fmt_f atof l \<Longrightarrow> NUL \<notin> set (render_list fmt_f c l)"
proof (induction b and l arbitrary: and c)
  case (BBool x)
  then show ?case by (simp add: NUL_def)
next
  case (BStr s)
  then show ?case
    using plain_no_NUL[of s] by (simp add: c_str_plain NUL_def dquote_def)
next
  case (BNum n)
  have "\<forall>c \<in> set (show_nat n). is_digit c"
    using show_nat_digits[of n] by (simp add: list_all_iff)
  then show ?case
    using is_digit_not_NUL by auto
next
  case (BFloat x)
  then show ?case
    using float_text_start(2)[of "fmt_f x"] by simp
next
  case (BArr l)
  then show ?case by (simp add: NUL_def)
next
  case (BObj l)
  then show ?case by (simp add: NUL_def)
next
  case LNil
  then show ?case by simp
next
  case (LCons nm b l)
  have rb: "rt_body fmt_f atof b" and rl: "rt_elems fmt_f atof l \<or> rt_members fmt_f atof l"
    using LCons.prems by auto
  have n: "NUL \<notin> set (render_name nm)"
  proof (cases nm)
    case None
    then show ?thesis by (simp add: render_name_def)
  next
    case (Some k)
    then have "list_all plain_char k" using LCons.prems by auto
    then show ?thesis
      using plain_no_NUL[of k] Some by (simp add: render_name_def c_str_plain NUL_def dquote_def)
  qed
  show ?case
    using LCons.IH(1)[OF rb] LCons.IH(2)[OF rl, of True] n by (simp add: NUL_def)
qed

text \<open>The tree that the parser builds from the text of a tree has the same text.\<close>

lemma render_reparse:
  fixes b :: "'f jbody" and l :: "'f jlist"
  shows "rt_body fmt_f atof b \<Longrightarrow> render_body fmt_f (reparse fmt_f atof b) = render_body fmt_f b"
    and "rt_elems fmt_f atof l \<or> rt_members fmt_f atof l \<Longrightarrow>
           render_list fmt_f c (reparse_list fmt_f atof l) = render_list fmt_f c l"
  by (induction b and l arbitrary: and c) auto

lemma stack_grows_init: "stack_grows YYINITDEPTH = 6"
  by (simp add: stack_grows.simps YYINITDEPTH_def YYMAXDEPTH_def)

lemma JSON_ProcessBuffer_render:
  fixes w :: "'f world"
  assumes rt: "rt_root fmt_f atof b" and st: "1 + stack_body b < YYMAXDEPTH"
    and av: "allocs_body b + stack_grows YYINITDEPTH \<le> avail w"
  shows "\<exists>w' nd. JSON_ProcessBuffer atof w (Some (render_body fmt_f b)) = Some (length (heap w'), w') \<and>
           repr w' (length (heap w')) (reparse fmt_f atof b) \<and>
           load w' (length (heap w')) = Some nd \<and> node_name nd = None"
proof -
  have rb: "rt_body fmt_f atof b" and ic: "is_container b"
    using rt by (simp_all add: rt_root_def)
  have c: "c_str (render_body fmt_f b) = render_body fmt_f b"
    using render_no_NUL(1)[OF rb] by (rule c_str_no_NUL)
  have "yylex_all (render_body fmt_f b @ []) = toks_body fmt_f b @ yylex_all []"
    using rb by (rule lex_render(1)) (simp add: follows_def)
  then have lx: "yylex_all (render_body fmt_f b) = toks_body fmt_f b"
    by (simp add: yylex_all.simps(1))
  have ok: "stack_ok 1 YYINITDEPTH"
    by (simp add: stack_ok_def YYINITDEPTH_def YYMAXDEPTH_def)
  from parse_tree(1)[OF rb ok st av, of "[]"] ic obtain w' sz'
    where p: "parse atof NT_value 1 YYINITDEPTH w (toks_body fmt_f b) =
        Some (Parsed (length (heap w')) [] sz' w')"
      and a: "parsed_as w w' (length (heap w')) None (reparse fmt_f atof b)"
      and ok': "stack_ok (Suc 1) sz'"
      and r: "root w' = length (heap w')"
    by auto
  have "parse atof NT_value 1 YYINITDEPTH w (toks_body fmt_f b) =
      parse atof NT_json 1 YYINITDEPTH w (toks_body fmt_f b)"
    using ic by (cases b) (simp_all add: is_container_def parse_value_LBRACKET parse_value_LBRACE)
  then have pj: "parse atof NT_json 1 YYINITDEPTH w (toks_body fmt_f b) =
      Some (Parsed (length (heap w')) [] sz' w')"
    using p by simp
  have "3 < sz'"
    using ok' by (simp add: stack_ok_def YYINITDEPTH_def)
  then have pu: "yypush 3 sz' w' = (Inr sz', w')"
    by (simp add: yypush_def)
  have "yyparse atof w (toks_body fmt_f b) = Some (0, w')"
    unfolding yyparse_def pj by (simp add: pu)
  then have 1: "JSON_ProcessBuffer atof w (Some (render_body fmt_f b)) = Some (length (heap w'), w')"
    using r by (simp add: JSON_ProcessBuffer_def c lx)
  from a obtain nd where nd: "load w' (length (heap w')) = Some nd" "node_name nd = None"
    by (auto simp: parsed_as_def split: option.splits)
  have "prepr w' (length (heap w)) (length (heap w')) (reparse fmt_f atof b)"
    using a by (auto simp: parsed_as_def)
  then have 2: "repr w' (length (heap w')) (reparse fmt_f atof b)"
    by (rule prepr_imp_repr(1))
  show ?thesis
    using 1 2 nd by blast
qed

lemma JSON_Print_repr:
  assumes "repr w p b" and "load w p = Some nd" and "node_name nd = None"
  shows "JSON_Print fmt_f w p True False = Some (render_body fmt_f b)"
proof -
  have "p \<noteq> NULL" using assms(2) by (rule load_Some_nonnull)
  then show ?thesis
    using print_rec_repr(1)[OF assms(1,2), of fmt_f False] assms(3)
    by (simp add: JSON_Print_def render_name_def)
qed

text \<open>
  Claim C2 fails on the code for the empty object (and the empty array): \<open>JSON_Print\<close> writes
  \<^verbatim>\<open>{}\<close>, which the grammar does not accept, so \<open>JSON_ProcessBuffer\<close> returns the null pointer,
  for which \<open>JSON_Print\<close> writes nothing.
\<close>

theorem round_trip_empty_object_counterexample:
  "round_trip fmt_unit atof_unit (snd (JSON_Object world0 None)) (fst (JSON_Object world0 None)) =
     Some (''{}'', [])"
proof -
  have l: "yylex_all ''{}'' = [(LBRACE, ''{''), (RBRACE, ''}'')]"
    by (simp add: lex_LBRACE lex_RBRACE yylex_all.simps(1))
  have c: "c_str ''{}'' = ''{}''"
    by (simp add: c_str_def NUL_def)
  show ?thesis
    by (simp add: round_trip_def JSON_Object_ok world0_def c l new_cell_def print_eval_defs
        zero_node_def JSON_ProcessBuffer_def parse_eval_defs)
qed

text \<open>
  Claim C2, amended. Let the node \<open>p\<close> be the root of a tree \<open>b\<close> with consistent kinds and
  without cycles (\<open>repr\<close>), where the root is an array or an object without a name, every
  array and object has at least one child, the children of an object have names and the
  children of an array have none, names and string values contain no quote, backslash or
  NUL, and every other leaf is a Bool, an unsigned number below \<open>2\<^sup>3\<^sup>1\<close>, or a float whose text
  is a decimal numeral with a fraction that \<open>atof\<close> converts to a float with the same text
  (\<open>rt_root\<close>). If the text of the tree fits the stack of the parser (\<open>stack_body\<close>: fewer than
  \<^verbatim>\<open>YYMAXDEPTH\<close> entries with the start state) and the allocations of the parser succeed
  (\<open>allocs_body\<close> for the nodes and names, and those that enlarge the stack), then printing
  \<open>p\<close>, parsing the text with \<open>JSON_ProcessBuffer\<close> and printing the root it returns gives
  two identical texts (the text \<open>render_body fmt_f b\<close> of the tree).
\<close>

theorem round_trip_identical:
  fixes w :: "'f world"
  assumes "repr w p b" and "load w p = Some nd" and "node_name nd = None"
    and "rt_root fmt_f atof b" and "1 + stack_body b < YYMAXDEPTH"
    and "allocs_body b + stack_grows YYINITDEPTH \<le> avail w"
  shows "round_trip fmt_f atof w p = Some (render_body fmt_f b, render_body fmt_f b)"
proof -
  have rb: "rt_body fmt_f atof b"
    using assms(4) by (simp add: rt_root_def)
  have 1: "JSON_Print fmt_f w p True False = Some (render_body fmt_f b)"
    using assms(1-3) by (rule JSON_Print_repr)
  from JSON_ProcessBuffer_render[OF assms(4-6)] obtain w' nd'
    where 2: "JSON_ProcessBuffer atof w (Some (render_body fmt_f b)) = Some (length (heap w'), w')"
      and r: "repr w' (length (heap w')) (reparse fmt_f atof b)"
      and nd': "load w' (length (heap w')) = Some nd'" "node_name nd' = None"
    by blast
  have "JSON_Print fmt_f w' (length (heap w')) True False =
      Some (render_body fmt_f (reparse fmt_f atof b))"
    using r nd' by (rule JSON_Print_repr)
  then have 3: "JSON_Print fmt_f w' (length (heap w')) True False = Some (render_body fmt_f b)"
    using render_reparse(1)[OF rb] by simp
  show ?thesis
    by (simp add: round_trip_def 1 2 3)
qed

theorem round_trip_identical_witness:
  "repr world_floats 6 floats_tree \<and>
   load world_floats 6 = Some (zero_node\<lparr>node_type := JSON_OBJECT, pFirst := 1, pLast := 5\<rparr>) \<and>
   node_name (zero_node\<lparr>node_type := JSON_OBJECT, pFirst := 1, pLast := 5\<rparr> :: string jnode) = None \<and>
   rt_root fmt_text atof_text floats_tree \<and>
   1 + stack_body floats_tree < YYMAXDEPTH \<and>
   allocs_body floats_tree + stack_grows YYINITDEPTH \<le> avail world_floats \<and>
   round_trip fmt_text atof_text world_floats 6 = Some (floats_text, floats_text)"
proof -
  have r: "repr world_floats 6 floats_tree"
    by (simp add: world_floats_def floats_tree_def load_def valid_ptr_def zero_node_def)
  have l: "load world_floats 6 = Some (zero_node\<lparr>node_type := JSON_OBJECT, pFirst := 1, pLast := 5\<rparr>)"
    by (simp add: world_floats_def load_def valid_ptr_def)
  have n: "node_name (zero_node\<lparr>node_type := JSON_OBJECT, pFirst := 1, pLast := 5\<rparr> :: string jnode) = None"
    by (simp add: zero_node_def)
  have t: "rt_root fmt_text atof_text floats_tree"
    by (simp add: rt_root_def is_container_def floats_tree_def fmt_text_def atof_text_def
        is_float_text_def is_digit_def plain_char_def dquote_def backslash_def NUL_def)
  have s: "1 + stack_body floats_tree < YYMAXDEPTH"
    by (simp add: floats_tree_def YYMAXDEPTH_def)
  have a: "allocs_body floats_tree + stack_grows YYINITDEPTH \<le> avail world_floats"
    by (simp add: floats_tree_def world_floats_def stack_grows_init)
  have e: "render_body fmt_text floats_tree = floats_text"
    by (simp add: floats_tree_def floats_text_def fmt_text_def render_name_def c_str_def NUL_def
        dquote_def show_nat_digit digit_char_def char_of_eq_iff)
  show ?thesis
    using round_trip_identical[OF r l n t s a] r l n t s a e by simp
qed

end
